theory Spec2Isabelle
  imports Complex_Main "HOL-Library.Word" "HOL-Library.Log_Nat"
begin

section \<open>Pixel buffers\<close>

text \<open>
  A \<^verbatim>\<open>Uint8ClampedArray\<close> is a list of bytes. A binary mask is such a buffer whose
  samples are all 0 (ink) or 255 (paper).
\<close>

type_synonym byte = "8 word"
type_synonym buffer = "byte list"

definition isBinaryMask :: "buffer \<Rightarrow> bool" where
  "isBinaryMask a = list_all (\<lambda>v. v = 0 \<or> v = 255) a"

definition count255 :: "buffer \<Rightarrow> nat" where
  "count255 a = length (filter (\<lambda>v. v = 255) a)"

text \<open>
  Reading a typed array outside its bounds yields \<^verbatim>\<open>undefined\<close>; \<^verbatim>\<open>Math.min\<close> and
  \<^verbatim>\<open>Math.max\<close> turn that into NaN, which then absorbs every later operand, and
  storing NaN into a \<^verbatim>\<open>Uint8ClampedArray\<close> writes 0. \<open>None\<close> stands for
  \<^verbatim>\<open>undefined\<close>/NaN.
\<close>

definition rd :: "buffer \<Rightarrow> nat \<Rightarrow> byte option" where
  "rd a i = (if i < length a then Some (a ! i) else None)"

definition mathMin :: "byte option \<Rightarrow> byte option \<Rightarrow> byte option" where
  "mathMin a b = (case (a, b) of (Some x, Some y) \<Rightarrow> Some (min x y) | _ \<Rightarrow> None)"

definition mathMax :: "byte option \<Rightarrow> byte option \<Rightarrow> byte option" where
  "mathMax a b = (case (a, b) of (Some x, Some y) \<Rightarrow> Some (max x y) | _ \<Rightarrow> None)"

definition store :: "byte option \<Rightarrow> byte" where
  "store v = (case v of Some x \<Rightarrow> x | None \<Rightarrow> 0)"

text \<open>A value that is NaN, 0 or 255.\<close>

definition twoValued :: "byte option \<Rightarrow> bool" where
  "twoValued m = (case m of None \<Rightarrow> True | Some v \<Rightarrow> v = 0 \<or> v = 255)"

subsection \<open>binaryUnion (src/js/ocr.js, lines 446-453)\<close>

text \<open>
  \<^verbatim>\<open>n = Math.min(a.length, b.length)\<close>; the loop writes every index below \<open>n\<close> once:
  0 where either input holds 0, else 255.
\<close>

definition binaryUnion :: "buffer \<Rightarrow> buffer \<Rightarrow> buffer" where
  "binaryUnion a b =
     (let n = min (length a) (length b)
      in map (\<lambda>i. if a ! i = 0 \<or> b ! i = 0 then 0 else 255) [0..<n])"

subsection \<open>The raster loops of the morphology filters\<close>

text \<open>
  Every filter allocates a zero-filled output of the input's length and runs
  \<^verbatim>\<open>for (y < height) for (x < width) out[y * width + x] = ...\<close>. A write past the end of
  a typed array is ignored, which is what list update does.
\<close>

definition raster :: "nat \<Rightarrow> nat \<Rightarrow> nat \<Rightarrow> (nat \<Rightarrow> nat \<Rightarrow> byte) \<Rightarrow> buffer" where
  "raster n width height f =
     fold (\<lambda>y out. fold (\<lambda>x out. out[y * width + x := f x y]) [0..<width] out)
          [0..<height] (replicate n 0)"

text \<open>
  \<^verbatim>\<open>px = Math.min(width - 1, Math.max(0, x + kx))\<close>, and the same for \<open>py\<close>: the border
  is replicated. \<open>window\<close> lists the indices \<^verbatim>\<open>py * width + px\<close> in the order the two
  kernel loops (\<open>ky\<close> outside, \<open>kx\<close> inside, both from \<open>-r\<close> to \<open>r\<close>) visit them.
\<close>

definition clampCoord :: "nat \<Rightarrow> nat \<Rightarrow> int \<Rightarrow> nat" where
  "clampCoord n x k = nat (min (int n - 1) (max 0 (int x + k)))"

definition window :: "int \<Rightarrow> nat \<Rightarrow> nat \<Rightarrow> nat \<Rightarrow> nat \<Rightarrow> nat list" where
  "window r width height x y =
     concat (map (\<lambda>ky. map (\<lambda>kx. clampCoord height y ky * width + clampCoord width x kx)
                            [-r..r]) [-r..r])"

definition erode :: "int \<Rightarrow> buffer \<Rightarrow> nat \<Rightarrow> nat \<Rightarrow> buffer" where
  "erode r input width height =
     raster (length input) width height
       (\<lambda>x y. store (fold (\<lambda>i m. mathMin m (rd input i)) (window r width height x y)
                           (Some 255)))"

definition dilate :: "int \<Rightarrow> buffer \<Rightarrow> nat \<Rightarrow> nat \<Rightarrow> buffer" where
  "dilate r input width height =
     raster (length input) width height
       (\<lambda>x y. store (fold (\<lambda>i m. mathMax m (rd input i)) (window r width height x y)
                           (Some 0)))"

subsection \<open>morphologyOpen (lines 718-751)\<close>

definition morphologyOpen :: "buffer \<Rightarrow> nat \<Rightarrow> nat \<Rightarrow> buffer" where
  "morphologyOpen binary width height =
     (let eroded = erode 1 binary width height;
          dilated = dilate 1 eroded width height
      in dilated)"

subsection \<open>morphologyCloseK (lines 643-677)\<close>

text \<open>
  \<^verbatim>\<open>r = Math.max(1, ((k | 0) - 1) >> 1)\<close>: both \<^verbatim>\<open>|\<close> and \<^verbatim>\<open>>>\<close> convert their left
  operand to a signed 32-bit integer, and \<^verbatim>\<open>>> 1\<close> halves it rounding down.
\<close>

definition toInt32 :: "int \<Rightarrow> int" where
  "toInt32 n = (n + 2 ^ 31) mod 2 ^ 32 - 2 ^ 31"

definition morphologyCloseK :: "buffer \<Rightarrow> nat \<Rightarrow> nat \<Rightarrow> int \<Rightarrow> buffer" where
  "morphologyCloseK binary width height k =
     (let r = max 1 (toInt32 (toInt32 k - 1) div 2);
          dil = dilate r binary width height;
          ero = erode r dil width height
      in ero)"

subsection \<open>binaryMajority3x3 (lines 621-637)\<close>

definition binaryMajority3x3 :: "buffer \<Rightarrow> nat \<Rightarrow> nat \<Rightarrow> buffer" where
  "binaryMajority3x3 input width height =
     raster (length input) width height
       (\<lambda>x y. let sum = fold (\<lambda>i (s::nat). s + (if rd input i = Some 255 then 1 else 0))
                              (window 1 width height x y) 0
              in if sum \<ge> 5 then 255 else 0)"

section \<open>Strings\<close>

text \<open>
  A JavaScript string is a sequence of UTF-16 code units. \<open>js\<close> embeds an ASCII literal.
\<close>

type_synonym jstring = "nat list"

definition js :: "string \<Rightarrow> jstring" where
  "js s = map of_char s"

text \<open>The characters matched by \<^verbatim>\<open>\s\<close> (and removed by \<^verbatim>\<open>trim\<close>).\<close>

definition isWhiteSpace :: "nat \<Rightarrow> bool" where
  "isWhiteSpace c \<longleftrightarrow>
     c \<in> {9, 10, 11, 12, 13, 32, 160, 5760, 8232, 8233, 8239, 8287, 12288, 65279}
     \<or> (8192 \<le> c \<and> c \<le> 8202)"

definition isDigit :: "nat \<Rightarrow> bool" where
  "isDigit c \<longleftrightarrow> 48 \<le> c \<and> c \<le> 57"

definition isUpper :: "nat \<Rightarrow> bool" where
  "isUpper c \<longleftrightarrow> 65 \<le> c \<and> c \<le> 90"

definition isLower :: "nat \<Rightarrow> bool" where
  "isLower c \<longleftrightarrow> 97 \<le> c \<and> c \<le> 122"

subsection \<open>normalizeEmailCandidate (lines 40-53)\<close>

text \<open>
  The three punctuation replacements: curly quotes and the backtick become \<^verbatim>\<open>'\<close>,
  the middle dot and the bullet become \<^verbatim>\<open>.\<close>, the full-width commercial at becomes
  \<^verbatim>\<open>@\<close>. No replacement produces a character that a later one rewrites.
\<close>

definition punctNormalize :: "nat \<Rightarrow> nat" where
  "punctNormalize c =
     (if c = 8217 \<or> c = 8216 \<or> c = 96 then 39
      else if c = 183 \<or> c = 8226 then 46
      else if c = 65312 then 64
      else c)"

text \<open>\<^verbatim>\<open>{ 'O': 'o', 'I': 'l', 'S': 's', 'B': 'b', 'Z': 'z', '0': 'o', '1': 'l', '5': 's' }\<close>\<close>

definition confusionMap :: "nat \<rightharpoonup> nat" where
  "confusionMap = [79 \<mapsto> 111, 73 \<mapsto> 108, 83 \<mapsto> 115, 66 \<mapsto> 98, 90 \<mapsto> 122,
                   48 \<mapsto> 111, 49 \<mapsto> 108, 53 \<mapsto> 115]"

text \<open>\<^verbatim>\<open>s.replace(/\.{2,}/g, '.')\<close>: every run of dots shrinks to one dot.\<close>

fun collapseDots :: "jstring \<Rightarrow> jstring" where
  "collapseDots (a # b # cs) =
     (if a = 46 \<and> b = 46 then collapseDots (b # cs) else a # collapseDots (b # cs))"
| "collapseDots cs = cs"

text \<open>The characters kept by \<^verbatim>\<open>s.replace(/[^A-Za-z0-9._%+@-]/g, '')\<close>.\<close>

definition isEmailAlphabet :: "nat \<Rightarrow> bool" where
  "isEmailAlphabet c \<longleftrightarrow>
     isUpper c \<or> isLower c \<or> isDigit c \<or> c \<in> {46, 95, 37, 43, 64, 45}"

text \<open>
  \<^verbatim>\<open>toLowerCase\<close> is applied to a string that holds characters of the email alphabet
  only, where it changes the letters A to Z and nothing else.
\<close>

definition toLowerCaseAscii :: "jstring \<Rightarrow> jstring" where
  "toLowerCaseAscii s = map (\<lambda>c. if isUpper c then c + 32 else c) s"

definition normalizeEmailCandidate :: "jstring \<Rightarrow> jstring" where
  "normalizeEmailCandidate str =
     (if str = [] then []
      else let s = filter (\<lambda>c. \<not> isWhiteSpace c) str;
               s = map punctNormalize s;
               s = map (\<lambda>ch. case confusionMap ch of Some r \<Rightarrow> r | None \<Rightarrow> ch) s;
               s = collapseDots s;
               s = filter isEmailAlphabet s
           in toLowerCaseAscii s)"

text \<open>
  The characters a normalized candidate can hold: lower-case letters, the digits other
  than 0, 1 and 5, and the six punctuation characters of the email alphabet.
\<close>

definition isNormalizedChar :: "nat \<Rightarrow> bool" where
  "isNormalizedChar c \<longleftrightarrow>
     isLower c \<or> (isDigit c \<and> c \<notin> {48, 49, 53}) \<or> c \<in> {46, 95, 37, 43, 64, 45}"

subsection \<open>normalizePhoneValue (lines 1428-1441)\<close>

text \<open>
  \<open>None\<close> is \<^verbatim>\<open>null\<close>. \<^verbatim>\<open>digits\<close> keeps the digits and the plus signs of the input;
  if it starts with a plus sign, that sign and the digits after it are kept, otherwise
  the digits alone.
\<close>

definition normalizePhoneValue :: "jstring \<Rightarrow> jstring option" where
  "normalizePhoneValue v =
     (if v = [] then None
      else let digits = filter (\<lambda>c. isDigit c \<or> c = 43) v
           in if digits = [] then None
              else if hd digits = 43 then Some (43 # filter isDigit (tl digits))
              else Some (filter isDigit digits))"

text \<open>
  The first character of \<open>v\<close> that is a digit or a plus sign is a plus sign.
\<close>

definition plusComesFirst :: "jstring \<Rightarrow> bool" where
  "plusComesFirst v =
     (case dropWhile (\<lambda>c. \<not> isDigit c \<and> c \<noteq> 43) v of [] \<Rightarrow> False | c # _ \<Rightarrow> c = 43)"


section \<open>Content localization\<close>

subsection \<open>computeAutoCropBox (src/js/ocr.js, lines 759-815)\<close>

text \<open>
  The options object: each member may be absent, in which case \<^verbatim>\<open>??\<close> supplies the
  default. \<^verbatim>\<open>minFrac\<close> is a fraction; the product \<^verbatim>\<open>width * minFrac\<close> is taken in the
  rationals before \<^verbatim>\<open>Math.floor\<close>.
\<close>

record cropOpts =
  minFrac :: "rat option"
  minRun :: "int option"
  pad :: "int option"

record cropBox =
  box_x :: int
  box_y :: int
  box_w :: int
  box_h :: int

text \<open>Number of samples equal to 255 in row \<open>y\<close>, and in column \<open>x\<close>.\<close>

definition rowSum :: "buffer \<Rightarrow> nat \<Rightarrow> nat \<Rightarrow> nat list" where
  "rowSum binary width height =
     map (\<lambda>y. length (filter (\<lambda>x. rd binary (y * width + x) = Some 255) [0..<width]))
         [0..<height]"

definition colSum :: "buffer \<Rightarrow> nat \<Rightarrow> nat \<Rightarrow> nat list" where
  "colSum binary width height =
     map (\<lambda>x. length (filter (\<lambda>y. rd binary (y * width + x) = Some 255) [0..<height]))
         [0..<width]"

text \<open>
  \<^verbatim>\<open>firstRunAbove\<close>: scan upwards, counting consecutive entries above the threshold;
  at the first run of the required length return its start, and 0 when the scan ends
  without one. The arguments of the loop are the entries not yet visited, the index
  \<open>i\<close> and the counter \<open>run\<close>.
\<close>

fun firstRunLoop :: "int \<Rightarrow> int \<Rightarrow> nat list \<Rightarrow> int \<Rightarrow> int \<Rightarrow> int" where
  "firstRunLoop thresh runReq [] i run = 0"
| "firstRunLoop thresh runReq (a # rest) i run =
     (if int a > thresh
      then (if run + 1 \<ge> runReq then i - (run + 1) + 1
            else firstRunLoop thresh runReq rest (i + 1) (run + 1))
      else firstRunLoop thresh runReq rest (i + 1) 0)"

definition firstRunAbove :: "nat list \<Rightarrow> int \<Rightarrow> int \<Rightarrow> int" where
  "firstRunAbove arr thresh runReq = firstRunLoop thresh runReq arr 0 0"

text \<open>
  \<^verbatim>\<open>lastRunAbove\<close>: the same scan downwards from the last index; it returns the end of
  the run, and \<^verbatim>\<open>arr.length - 1\<close> when the scan ends without one.
\<close>

fun lastRunLoop :: "int \<Rightarrow> int \<Rightarrow> int \<Rightarrow> nat list \<Rightarrow> int \<Rightarrow> int \<Rightarrow> int" where
  "lastRunLoop thresh runReq n [] i run = n - 1"
| "lastRunLoop thresh runReq n (a # rest) i run =
     (if int a > thresh
      then (if run + 1 \<ge> runReq then i + (run + 1) - 1
            else lastRunLoop thresh runReq n rest (i - 1) (run + 1))
      else lastRunLoop thresh runReq n rest (i - 1) 0)"

definition lastRunAbove :: "nat list \<Rightarrow> int \<Rightarrow> int \<Rightarrow> int" where
  "lastRunAbove arr thresh runReq =
     lastRunLoop thresh runReq (int (length arr)) (rev arr) (int (length arr) - 1) 0"

definition computeAutoCropBox :: "buffer \<Rightarrow> nat \<Rightarrow> nat \<Rightarrow> cropOpts \<Rightarrow> cropBox option" where
  "computeAutoCropBox binary width height opts =
     (let minFrac = (case minFrac opts of Some v \<Rightarrow> v | None \<Rightarrow> 35 / 100);
          minRun = (case minRun opts of Some v \<Rightarrow> v | None \<Rightarrow> 10);
          pad = (case pad opts of Some v \<Rightarrow> v | None \<Rightarrow> 8);
          rows = rowSum binary width height;
          cols = colSum binary width height;
          rowThresh = max 1 \<lfloor>of_nat width * minFrac\<rfloor>;
          colThresh = max 1 \<lfloor>of_nat height * minFrac\<rfloor>;
          top = firstRunAbove rows rowThresh minRun;
          bottom = lastRunAbove rows rowThresh minRun;
          left = firstRunAbove cols colThresh minRun;
          right = lastRunAbove cols colThresh minRun
      in if bottom \<le> top + 2 \<or> right \<le> left + 2 then None
         else let top = max 0 (top - pad);
                  bottom = min (int height - 1) (bottom + pad);
                  left = max 0 (left - pad);
                  right = min (int width - 1) (right + pad)
              in Some \<lparr>box_x = left, box_y = top,
                       box_w = right - left + 1, box_h = bottom - top + 1\<rparr>)"

text \<open>The options the preprocessing pipeline passes (line 423).\<close>

definition pipelineCropOpts :: cropOpts where
  "pipelineCropOpts = \<lparr>minFrac = Some (35 / 100), minRun = Some 10, pad = Some 8\<rparr>"


text \<open>
  The array holds a run of at least \<open>runReq\<close> consecutive entries above the threshold
  (the run the two scans look for).
\<close>

definition hasRunAbove :: "nat list \<Rightarrow> int \<Rightarrow> int \<Rightarrow> bool" where
  "hasRunAbove arr thresh runReq =
     list_ex (\<lambda>i. i + nat runReq \<le> length arr
                  \<and> list_all (\<lambda>a. int a > thresh) (take (nat runReq) (drop i arr)))
             [0..<Suc (length arr)]"

text \<open>A buffer with one white sample per row and per column.\<close>

definition diagMask :: buffer where
  "diagMask = [255, 0, 0, 0, 0,
               0, 255, 0, 0, 0,
               0, 0, 255, 0, 0,
               0, 0, 0, 255, 0,
               0, 0, 0, 0, 255]"

section \<open>Recognition results and fields\<close>

text \<open>
  The recognition engine is external. It returns words with a text, a bounding box and
  a confidence, grouped into lines with a text of their own. The extractors test each
  of these members before use (the text on lines 1045, 1065, 1331 and 1364), so each
  may be missing: \<open>None\<close> is \<^verbatim>\<open>undefined\<close> or \<^verbatim>\<open>null\<close>. Words and lines themselves
  are objects. Coordinates and confidences are JavaScript numbers; they are modelled as
  rationals, so every bounding box that is present has four numeric coordinates. A field
  is what an extraction function returns and the refinement pass updates.
\<close>

record bbox =
  x0 :: rat
  y0 :: rat
  x1 :: rat
  y1 :: rat

record ocrWord =
  w_text :: "jstring option"
  w_bbox :: "bbox option"
  w_confidence :: "rat option"


record ocrField =
  f_value :: "jstring option"
  f_confidence :: rat
  f_words :: "ocrWord list option"
  f_bbox :: "bbox option"


text \<open>A string or null used as a condition: null and the empty string are false.\<close>



definition truthy :: "jstring option \<Rightarrow> bool" where
  "truthy v = (case v of None \<Rightarrow> False | Some s \<Rightarrow> s \<noteq> [])"

definition trim :: "jstring \<Rightarrow> jstring" where
  "trim s = rev (dropWhile isWhiteSpace (rev (dropWhile isWhiteSpace s)))"

subsection \<open>meanConfidence (src/js/ocr.js, lines 997-1001) and summarizeWords (lines 1007-1025)\<close>

definition meanConfidence :: "ocrWord list \<Rightarrow> rat" where
  "meanConfidence words =
     (if words = [] then 0
      else let total = fold (\<lambda>word acc. acc + (case w_confidence word of Some c \<Rightarrow> c | None \<Rightarrow> 0))
                            words 0
           in total / of_nat (length words))"


subsection \<open>Regular expressions\<close>

text \<open>
  The three patterns of the extractor use character classes with bounded or unbounded
  greedy repetition, one optional group and the end anchor. \<open>matchSeq\<close> matches a
  sequence of such items at the start of the input the way a backtracking matcher does:
  a repetition first takes as many characters as it may and gives them back one at a
  time while the rest of the pattern fails; an optional group is tried before it is
  skipped. The result is the input left after the match.
\<close>

datatype rx = Rep "nat \<Rightarrow> bool" nat "nat option" | Opt "rx list" | Eos

abbreviation one :: "(nat \<Rightarrow> bool) \<Rightarrow> rx" where
  "one cls \<equiv> Rep cls 1 (Some 1)"

fun firstSome :: "'a option list \<Rightarrow> 'a option" where
  "firstSome [] = None"
| "firstSome (Some r # _) = Some r"
| "firstSome (None # rest) = firstSome rest"

function matchSeq :: "rx list \<Rightarrow> jstring \<Rightarrow> jstring option" where
  "matchSeq [] s = Some s"
| "matchSeq (Eos # rs) s = (if s = [] then matchSeq rs s else None)"
| "matchSeq (Opt g # rs) s =
     (case matchSeq (g @ rs) s of Some r \<Rightarrow> Some r | None \<Rightarrow> matchSeq rs s)"
| "matchSeq (Rep cls lo hi # rs) s =
     (let avail = length (takeWhile cls s);
          most = (case hi of None \<Rightarrow> avail | Some h \<Rightarrow> min avail h)
      in firstSome (map (\<lambda>k. matchSeq rs (drop k s)) (rev [lo..<Suc most])))"
  by pat_completeness auto
termination
  by (relation "measure (\<lambda>(rs, s). size_list size rs)") auto

text \<open>
  \<^verbatim>\<open>str.match(re)\<close> for a pattern without the global flag: the match at the leftmost
  position where one exists. \<^verbatim>\<open>re.test(str)\<close>: whether there is one.
\<close>

fun regexMatch :: "rx list \<Rightarrow> jstring \<Rightarrow> jstring option" where
  "regexMatch re [] = (case matchSeq re [] of Some rest \<Rightarrow> Some [] | None \<Rightarrow> None)"
| "regexMatch re (c # cs) =
     (case matchSeq re (c # cs) of
        Some rest \<Rightarrow> Some (take (length (c # cs) - length rest) (c # cs))
      | None \<Rightarrow> regexMatch re cs)"

definition regexTest :: "rx list \<Rightarrow> jstring \<Rightarrow> bool" where
  "regexTest re s = (regexMatch re s \<noteq> None)"

text \<open>
  \<^verbatim>\<open>EMAIL_REGEX = /[A-Z0-9._%+-]+@[A-Z0-9.-]+\.[A-Z]{2,}/i\<close>. With the \<^verbatim>\<open>i\<close> flag a
  class that lists A to Z also matches a to z.
\<close>

definition isLetter :: "nat \<Rightarrow> bool" where
  "isLetter c \<longleftrightarrow> isUpper c \<or> isLower c"

definition EMAIL_REGEX :: "rx list" where
  "EMAIL_REGEX =
     [Rep (\<lambda>c. isLetter c \<or> isDigit c \<or> c \<in> {46, 95, 37, 43, 45}) 1 None,
      one (\<lambda>c. c = 64),
      Rep (\<lambda>c. isLetter c \<or> isDigit c \<or> c \<in> {46, 45}) 1 None,
      one (\<lambda>c. c = 46),
      Rep isLetter 2 None]"

text \<open>\<^verbatim>\<open>PHONE_REGEX = /(\+\d{1,3}\s*)?[\d() -]{7,}/\<close>\<close>

definition PHONE_REGEX :: "rx list" where
  "PHONE_REGEX =
     [Opt [one (\<lambda>c. c = 43), Rep isDigit 1 (Some 3), Rep isWhiteSpace 0 None],
      Rep (\<lambda>c. isDigit c \<or> c \<in> {40, 41, 32, 45}) 7 None]"




subsection \<open>extractEmailFromLines (lines 1037-1087)\<close>



subsection \<open>extractName (lines 1327-1348)\<close>






subsection \<open>extractPhone (lines 1398-1422)\<close>







subsection \<open>maybeRefineLowConfidence (lines 1454-1495)\<close>

text \<open>
  The engine is a parameter: given the whitelist, the segmentation mode and the region
  of the canvas (\<open>sx\<close>, \<open>sy\<close>, \<open>sWidth\<close>, \<open>sHeight\<close>) it answers with a text and words,
  either of which may be missing. The function updates the field in place; the model
  returns the field after the call. The guard on line 1458 (a coordinate that is not a
  number) cannot fire on rational coordinates.
\<close>

record recognition =
  r_text :: "jstring option"
  r_words :: "ocrWord list option"

record canvas =
  c_width :: int
  c_height :: int

type_synonym engine = "jstring \<Rightarrow> int \<Rightarrow> int \<times> int \<times> int \<times> int \<Rightarrow> recognition"

definition mathRound :: "rat \<Rightarrow> int" where
  "mathRound v = \<lfloor>v + 1 / 2\<rfloor>"

definition refineRegion :: "canvas \<Rightarrow> bbox \<Rightarrow> int \<times> int \<times> int \<times> int" where
  "refineRegion cv b =
     (let padding = 6;
          sx = max 0 (mathRound (x0 b - padding));
          sy = max 0 (mathRound (y0 b - padding));
          sWidth = max 1 (min (c_width cv - sx) (mathRound (x1 b - x0 b + padding * 2)));
          sHeight = max 1 (min (c_height cv - sy) (mathRound (y1 b - y0 b + padding * 2)))
      in (sx, sy, sWidth, sHeight))"

text \<open>The value and the confidence the refinement pass reads off the engine's answer.\<close>

definition refinedConfidence :: "recognition \<Rightarrow> rat" where
  "refinedConfidence refined =
     meanConfidence (case r_words refined of Some ws \<Rightarrow> ws | None \<Rightarrow> [])"

definition refinedValue ::
  "recognition \<Rightarrow> (jstring \<Rightarrow> jstring option) option \<Rightarrow> (jstring \<Rightarrow> jstring) option
   \<Rightarrow> jstring option" where
  "refinedValue refined postProcess postExtract =
     (let v = trim (case r_text refined of Some t \<Rightarrow> t | None \<Rightarrow> []);
          v = (case postExtract of Some f \<Rightarrow> f v | None \<Rightarrow> v)
      in case postProcess of Some f \<Rightarrow> f v | None \<Rightarrow> Some v)"

definition maybeRefineLowConfidence ::
  "engine \<Rightarrow> canvas \<Rightarrow> ocrField \<Rightarrow> jstring \<Rightarrow> int
   \<Rightarrow> (jstring \<Rightarrow> jstring option) option \<Rightarrow> (jstring \<Rightarrow> jstring) option \<Rightarrow> ocrField" where
  "maybeRefineLowConfidence recognize cv field whitelist psm postProcess postExtract =
     (case f_bbox field of
        None \<Rightarrow> field
      | Some b \<Rightarrow>
          if f_confidence field \<ge> 70 \<and> truthy (f_value field) then field
          else let refined = recognize whitelist psm (refineRegion cv b);
                   rc = refinedConfidence refined;
                   rv = refinedValue refined postProcess postExtract
               in if \<not> truthy rv then field
                  else if \<not> truthy (f_value field) \<or> rc > f_confidence field
                  then field\<lparr>f_value := rv, f_confidence := rc\<rparr>
                  else field)"

subsection \<open>Sample inputs\<close>

definition mkWord :: "string \<Rightarrow> rat \<Rightarrow> rat \<Rightarrow> rat \<Rightarrow> ocrWord" where
  "mkWord t ya yb c =
     \<lparr>w_text = Some (js t), w_bbox = Some \<lparr>x0 = 0, y0 = ya, x1 = 100, y1 = yb\<rparr>,
      w_confidence = Some c\<rparr>"






text \<open>
  The email field of end-to-end scenario 2 (mean confidence 45, with a bounding box)
  and an engine whose refined pass reads the address with confidence 80; the two
  functions the pipeline passes for the email field (lines 1263-1267).
\<close>

definition scenarioField :: ocrField where
  "scenarioField =
     \<lparr>f_value = Some (js ''jo@ex.io''), f_confidence = 45,
      f_words = Some [mkWord ''jo@ex.io'' 10 30 45],
      f_bbox = Some \<lparr>x0 = 0, y0 = 10, x1 = 100, y1 = 30\<rparr>\<rparr>"

definition scenarioEngine :: engine where
  "scenarioEngine whitelist psm region =
     \<lparr>r_text = Some (js ''j0@ex.io ''),
      r_words = Some [mkWord ''j0@ex.io'' 6 26 80]\<rparr>"

definition emailPostProcess :: "jstring \<Rightarrow> jstring option" where
  "emailPostProcess v = Some (normalizeEmailCandidate v)"

definition emailPostExtract :: "jstring \<Rightarrow> jstring" where
  "emailPostExtract t =
     (case regexMatch EMAIL_REGEX (normalizeEmailCandidate t) of Some m \<Rightarrow> m | None \<Rightarrow> [])"

text \<open>
  A field without a value (confidence 50, with a bounding box) and an engine whose
  refined pass reads one letter with confidence 30.
\<close>

definition valuelessField :: ocrField where
  "valuelessField =
     \<lparr>f_value = None, f_confidence = 50, f_words = None,
      f_bbox = Some \<lparr>x0 = 0, y0 = 10, x1 = 100, y1 = 30\<rparr>\<rparr>"

definition weakEngine :: engine where
  "weakEngine whitelist psm region =
     \<lparr>r_text = Some (js ''a''), r_words = Some [mkWord ''a'' 6 26 30]\<rparr>"

definition sampleCanvas :: canvas where
  "sampleCanvas = \<lparr>c_width = 2400, c_height = 1400\<rparr>"

section \<open>Binarization\<close>

subsection \<open>otsuThreshold (src/js/ocr.js, lines 684-712)\<close>

text \<open>
  The histogram and the sums \<^verbatim>\<open>total\<close> (here \<open>totalCount\<close>), \<^verbatim>\<open>sum\<close> (here
  \<open>sumAll\<close>), \<^verbatim>\<open>wB\<close>, \<^verbatim>\<open>wF\<close> and \<^verbatim>\<open>sumB\<close> are integers far below \<open>2^53\<close> and
  exact. The two means, their difference and the three products are JavaScript numbers:
  IEEE 754 doubles, rounded to the nearest double (ties to the even significand) after
  every operation. \<open>roundDouble\<close> is that rounding on the rationals: the value is scaled
  by the power of two that brings it into \<open>[2^52, 2^53)\<close>, rounded to an integer, and
  scaled back. The exponent is not bounded: on an array of fewer than \<open>2^32\<close> samples
  the values of this function that are not 0 lie between \<open>2^-32\<close> and \<open>2^80\<close>, far
  from overflow and underflow.
\<close>

definition pow2 :: "int \<Rightarrow> rat" where
  "pow2 e = (if 0 \<le> e then 2 ^ nat e else 1 / 2 ^ nat (- e))"

definition roundHalfEven :: "rat \<Rightarrow> int" where
  "roundHalfEven q =
     (let f = \<lfloor>q\<rfloor>; r = q - of_int f
      in if r < 1 / 2 then f else if 1 / 2 < r then f + 1 else if even f then f else f + 1)"

text \<open>
  The exponent \<open>e\<close> of a positive rational \<open>a\<close>, with \<open>2^e \<le> a < 2^(e+1)\<close>: the bit
  lengths of numerator and denominator give it up to one.
\<close>

definition exponentOf :: "rat \<Rightarrow> int" where
  "exponentOf a =
     (let (p, q) = quotient_of a;
          e = bitlen p - bitlen q
      in if pow2 e \<le> a then e else e - 1)"

definition roundDouble :: "rat \<Rightarrow> rat" where
  "roundDouble x =
     (if x = 0 then 0
      else let a = \<bar>x\<bar>;
               ulp = pow2 (exponentOf a - 52)
           in sgn x * of_int (roundHalfEven (a / ulp)) * ulp)"

text \<open>
  The unit roundoff of the doubles: rounding changes a value by at most this fraction
  of it.
\<close>

definition unitRoundoff :: rat where
  "unitRoundoff = 1 / 2 ^ 53"

text \<open>
  The loop is written over a rounding \<open>rnd\<close>, so that the same text also runs in exact
  arithmetic (\<open>rnd\<close> the identity); the program is the instance with \<open>roundDouble\<close>.
  \<^verbatim>\<open>wB * wF * (mB - mF) * (mB - mF)\<close> associates to the left.
\<close>

definition histogramOf :: "buffer \<Rightarrow> nat list" where
  "histogramOf values =
     fold (\<lambda>v histogram. histogram[unat v := histogram ! unat v + 1]) values (replicate 256 0)"

definition betweenOf :: "(rat \<Rightarrow> rat) \<Rightarrow> int \<Rightarrow> int \<Rightarrow> int \<Rightarrow> int \<Rightarrow> rat" where
  "betweenOf rnd wB wF sumB sumF =
     (let mB = rnd (of_int sumB / of_int wB);
          mF = rnd (of_int sumF / of_int wF)
      in rnd (rnd (rnd (of_int wB * of_int wF) * rnd (mB - mF)) * rnd (mB - mF)))"

text \<open>
  The second loop, over the indices not yet visited: \<^verbatim>\<open>continue\<close> while the background
  is empty, \<^verbatim>\<open>break\<close> once the foreground is.
\<close>

fun otsuLoop ::
  "(rat \<Rightarrow> rat) \<Rightarrow> nat list \<Rightarrow> int \<Rightarrow> int \<Rightarrow> nat list \<Rightarrow> int \<Rightarrow> int \<Rightarrow> rat \<Rightarrow> nat \<Rightarrow> nat" where
  "otsuLoop rnd histogram totalCount sumAll [] wB sumB maximum threshold = threshold"
| "otsuLoop rnd histogram totalCount sumAll (i # rest) wB sumB maximum threshold =
     (let wB = wB + int (histogram ! i)
      in if wB = 0 then otsuLoop rnd histogram totalCount sumAll rest wB sumB maximum threshold
         else let wF = totalCount - wB
              in if wF = 0 then threshold
                 else let sumB = sumB + int i * int (histogram ! i);
                          between = betweenOf rnd wB wF sumB (sumAll - sumB)
                      in if between > maximum
                         then otsuLoop rnd histogram totalCount sumAll rest wB sumB between i
                         else otsuLoop rnd histogram totalCount sumAll rest wB sumB maximum threshold)"

definition otsuThresholdWith :: "(rat \<Rightarrow> rat) \<Rightarrow> buffer \<Rightarrow> nat" where
  "otsuThresholdWith rnd values =
     (let histogram = histogramOf values;
          totalCount = int (length values);
          sumAll = fold (\<lambda>i acc. acc + int i * int (histogram ! i)) [0..<256] 0
      in otsuLoop rnd histogram totalCount sumAll [0..<256] 0 0 0 0)"

definition otsuThreshold :: "buffer \<Rightarrow> nat" where
  "otsuThreshold values = otsuThresholdWith roundDouble values"

text \<open>
  The between-class variance of a threshold \<open>t\<close> as the loop computes it from the
  histogram under the rounding \<open>rnd\<close>: the background holds the bins up to \<open>t\<close>, the
  foreground the bins above it. A threshold that leaves one class empty is never
  scored by the loop: its variance counts as 0.
\<close>

definition classWeight :: "nat list \<Rightarrow> nat list \<Rightarrow> int" where
  "classWeight histogram bins = (\<Sum>j\<leftarrow>bins. int (histogram ! j))"

definition classSum :: "nat list \<Rightarrow> nat list \<Rightarrow> int" where
  "classSum histogram bins = (\<Sum>j\<leftarrow>bins. int j * int (histogram ! j))"

definition computedVariance :: "(rat \<Rightarrow> rat) \<Rightarrow> buffer \<Rightarrow> nat \<Rightarrow> rat" where
  "computedVariance rnd values t =
     (let histogram = histogramOf values;
          wB = classWeight histogram [0..<Suc t];
          wF = classWeight histogram [Suc t..<256];
          sumB = classSum histogram [0..<Suc t];
          sumF = classSum histogram [Suc t..<256]
      in if wB = 0 \<or> wF = 0 then 0 else betweenOf rnd wB wF sumB sumF)"

text \<open>
  The between-class variance of a threshold \<open>t\<close> as the specification names it,
  \<open>wB \<cdot> wF \<cdot> (mB - mF)\<^sup>2\<close> in exact arithmetic, taken from the samples themselves: \<open>wB\<close>
  and \<open>mB\<close> are the number and the mean of the samples up to \<open>t\<close>, \<open>wF\<close> and \<open>mF\<close>
  those of the samples above \<open>t\<close>; 0 when one class is empty.
\<close>

definition exactVariance :: "buffer \<Rightarrow> nat \<Rightarrow> rat" where
  "exactVariance values t =
     (let background = filter (\<lambda>v. unat v \<le> t) values;
          foreground = filter (\<lambda>v. t < unat v) values;
          wB = of_nat (length background);
          wF = of_nat (length foreground)
      in if background = [] \<or> foreground = [] then 0
         else let mB = of_nat (sum_list (map unat background)) / wB;
                  mF = of_nat (sum_list (map unat foreground)) / wF
              in wB * wF * (mB - mF)\<^sup>2)"

text \<open>A rounding that never changes the sign of its argument.\<close>

definition keepsSign :: "(rat \<Rightarrow> rat) \<Rightarrow> bool" where
  "keepsSign rnd \<longleftrightarrow> (\<forall>x. (0 \<le> x \<longrightarrow> 0 \<le> rnd x) \<and> (x \<le> 0 \<longrightarrow> rnd x \<le> 0))"

text \<open>
  \<open>r\<close> is a threshold in 0..255 at which \<open>B\<close> is maximal, and the lowest such.
\<close>

definition lowestMaximizer :: "(nat \<Rightarrow> rat) \<Rightarrow> nat \<Rightarrow> bool" where
  "lowestMaximizer B r \<longleftrightarrow> r \<le> 255 \<and> (\<forall>u\<le>255. B u \<le> B r) \<and> (\<forall>u<r. B u < B r)"

section \<open>Properties\<close>

section \<open>Properties of binaryUnion\<close>

lemma length_binaryUnion: "length (binaryUnion a b) = min (length a) (length b)"
  by (simp add: binaryUnion_def)

lemma nth_binaryUnion:
  "i < min (length a) (length b) \<Longrightarrow>
   binaryUnion a b ! i = (if a ! i = 0 \<or> b ! i = 0 then 0 else 255)"
  by (simp add: binaryUnion_def)

text \<open>
  Claim C4. binaryUnion is commutative for every pair of buffers, and on a binary mask
  (all samples 0 or 255) the union of the mask with itself is the mask.
\<close>

theorem binaryUnion_comm_idem:
  "binaryUnion a b = binaryUnion b a \<and> (isBinaryMask a \<longrightarrow> binaryUnion a a = a)"
proof
  show "binaryUnion a b = binaryUnion b a"
    by (auto simp: binaryUnion_def min.commute)
next
  show "isBinaryMask a \<longrightarrow> binaryUnion a a = a"
  proof
    assume m: "isBinaryMask a"
    show "binaryUnion a a = a"
    proof (rule nth_equalityI)
      show "length (binaryUnion a a) = length a"
        by (simp add: length_binaryUnion)
    next
      fix i assume "i < length (binaryUnion a a)"
      then have i: "i < length a" by (simp add: length_binaryUnion)
      with m have "a ! i = 0 \<or> a ! i = 255"
        by (simp add: isBinaryMask_def list_all_length)
      with i show "binaryUnion a a ! i = a ! i"
        by (auto simp: nth_binaryUnion)
    qed
  qed
qed

theorem binaryUnion_comm_idem_witness:
  "binaryUnion [0, 255, 255] [255, 0] = binaryUnion [255, 0] [0, 255, 255]
   \<and> isBinaryMask [0, 255, 255] \<and> binaryUnion [0, 255, 255] [0, 255, 255] = [0, 255, 255]"
proof -
  have m: "isBinaryMask [0, 255, 255]" by (simp add: isBinaryMask_def)
  show ?thesis
    using m binaryUnion_comm_idem [of "[0, 255, 255]" "[255, 0]"] by simp
qed

text \<open>
  Claim C10. binaryUnion is defined on buffers of any two lengths and any contents: the
  result has the length of the shorter input, and each of its samples is 0 when the
  sample of either input at that index is 0, and 255 otherwise.
\<close>

theorem binaryUnion_total:
  "length (binaryUnion a b) = min (length a) (length b)
   \<and> (\<forall>i < min (length a) (length b).
        (binaryUnion a b ! i = 0 \<or> binaryUnion a b ! i = 255)
        \<and> (binaryUnion a b ! i = 0 \<longleftrightarrow> a ! i = 0 \<or> b ! i = 0))"
  by (auto simp: length_binaryUnion nth_binaryUnion)

theorem binaryUnion_total_witness:
  "length (binaryUnion [7, 0, 200] [9, 13]) = 2
   \<and> (1::nat) < min (length [7, 0, 200 :: byte]) (length [9, 13 :: byte])
   \<and> binaryUnion [7, 0, 200] [9, 13] ! 1 = 0
   \<and> binaryUnion [7, 0, 200] [9, 13] ! 0 = 255"
  using binaryUnion_total [of "[7, 0, 200]" "[9, 13]"] by (simp add: binaryUnion_def)

section \<open>Properties of the morphology filters\<close>

lemma length_row_fold:
  "length (fold (\<lambda>x out. out[base + x := g x]) xs out) = length out"
  by (induction xs arbitrary: out) auto

lemma nth_row_fold:
  "i < length out \<Longrightarrow>
   fold (\<lambda>x out. out[base + x := g x]) [0..<w] out ! i
     = (if base \<le> i \<and> i < base + w then g (i - base) else out ! i)"
proof (induction w)
  case 0
  then show ?case by auto
next
  case (Suc w)
  let ?p = "fold (\<lambda>x out. out[base + x := g x]) [0..<w] out"
  have len: "length ?p = length out" by (rule length_row_fold)
  have upd: "fold (\<lambda>x out. out[base + x := g x]) [0..<Suc w] out = ?p[base + w := g w]"
    by simp
  show ?case
  proof (cases "i = base + w")
    case True
    with Suc.prems len have "?p[base + w := g w] ! i = g w" by simp
    with True upd show ?thesis by simp
  next
    case False
    then have "?p[base + w := g w] ! i = ?p ! i" by simp
    with False upd Suc.IH [OF Suc.prems] show ?thesis by auto
  qed
qed

lemma length_raster_fold:
  "length (fold (\<lambda>y out. fold (\<lambda>x out. out[y * width + x := f x y]) [0..<width] out) ys out)
     = length out"
  by (induction ys arbitrary: out) (auto simp: length_row_fold)

lemma length_raster: "length (raster n width height f) = n"
  by (simp add: raster_def length_raster_fold)

lemma nth_raster_fold:
  "i < length out \<Longrightarrow>
   fold (\<lambda>y out. fold (\<lambda>x out. out[y * width + x := f x y]) [0..<width] out) [0..<h] out ! i
     = (if i < width * h then f (i mod width) (i div width) else out ! i)"
proof (induction h)
  case 0
  then show ?case by simp
next
  case (Suc h)
  let ?prev = "fold (\<lambda>y out. fold (\<lambda>x out. out[y * width + x := f x y]) [0..<width] out) [0..<h] out"
  have len: "i < length ?prev"
    using Suc.prems by (simp add: length_raster_fold)
  have step: "fold (\<lambda>x out. out[h * width + x := f x h]) [0..<width] ?prev ! i
     = (if h * width \<le> i \<and> i < h * width + width then f (i - h * width) h else ?prev ! i)"
    using len by (rule nth_row_fold)
  show ?case
  proof (cases "h * width \<le> i \<and> i < h * width + width")
    case True
    then have w: "0 < width" by (cases width) auto
    from True have "i div width = h"
      by (metis add.commute div_nat_eqI mult.commute mult_Suc_right)
    moreover from True have "i - h * width = i mod width"
      by (metis \<open>i div width = h\<close> minus_mult_div_eq_mod mult.commute)
    moreover from True have "i < width * Suc h" by (simp add: mult.commute)
    ultimately show ?thesis using step True by simp
  next
    case False
    then have iff: "i < width * Suc h \<longleftrightarrow> i < width * h"
      by (auto simp: mult.commute)
    from False step have "fold (\<lambda>x out. out[h * width + x := f x h]) [0..<width] ?prev ! i = ?prev ! i"
      by (simp only: if_False)
    with Suc.IH [OF Suc.prems] iff show ?thesis by simp
  qed
qed

lemma nth_raster:
  "i < n \<Longrightarrow>
   raster n width height f ! i
     = (if i < width * height then f (i mod width) (i div width) else 0)"
  by (simp add: raster_def nth_raster_fold)


subsection \<open>Two-valued outputs\<close>

lemma rd_twoValued: "isBinaryMask a \<Longrightarrow> twoValued (rd a i)"
  by (simp add: isBinaryMask_def list_all_length rd_def twoValued_def)

lemma mathMin_twoValued: "twoValued a \<Longrightarrow> twoValued b \<Longrightarrow> twoValued (mathMin a b)"
  by (auto simp: twoValued_def mathMin_def min_def split: option.splits)

lemma mathMax_twoValued: "twoValued a \<Longrightarrow> twoValued b \<Longrightarrow> twoValued (mathMax a b)"
  by (auto simp: twoValued_def mathMax_def max_def split: option.splits)

lemma fold_mathMin_twoValued:
  "isBinaryMask a \<Longrightarrow> twoValued m \<Longrightarrow> twoValued (fold (\<lambda>i m. mathMin m (rd a i)) is m)"
  by (induction "is" arbitrary: m) (simp_all add: mathMin_twoValued rd_twoValued)

lemma fold_mathMax_twoValued:
  "isBinaryMask a \<Longrightarrow> twoValued m \<Longrightarrow> twoValued (fold (\<lambda>i m. mathMax m (rd a i)) is m)"
  by (induction "is" arbitrary: m) (simp_all add: mathMax_twoValued rd_twoValued)

lemma store_twoValued: "twoValued m \<Longrightarrow> store m = 0 \<or> store m = 255"
  by (auto simp: twoValued_def store_def split: option.splits)

lemma raster_isBinaryMask:
  assumes "\<And>x y. f x y = 0 \<or> f x y = 255"
  shows "isBinaryMask (raster n width height f)"
  unfolding isBinaryMask_def list_all_length
proof (intro allI impI)
  fix i assume "i < length (raster n width height f)"
  then have "i < n" by (simp add: length_raster)
  then show "raster n width height f ! i = 0 \<or> raster n width height f ! i = 255"
    using assms by (simp add: nth_raster)
qed

lemma erode_isBinaryMask: "isBinaryMask a \<Longrightarrow> isBinaryMask (erode r a width height)"
  unfolding erode_def
  by (rule raster_isBinaryMask, rule store_twoValued, rule fold_mathMin_twoValued)
     (simp_all add: twoValued_def)

lemma dilate_isBinaryMask: "isBinaryMask a \<Longrightarrow> isBinaryMask (dilate r a width height)"
  unfolding dilate_def
  by (rule raster_isBinaryMask, rule store_twoValued, rule fold_mathMax_twoValued)
     (simp_all add: twoValued_def)

lemma morphologyOpen_isBinaryMask:
  "isBinaryMask a \<Longrightarrow> isBinaryMask (morphologyOpen a width height)"
  by (simp add: morphologyOpen_def dilate_isBinaryMask erode_isBinaryMask)

lemma morphologyCloseK_isBinaryMask:
  "isBinaryMask a \<Longrightarrow> isBinaryMask (morphologyCloseK a width height k)"
  by (simp add: morphologyCloseK_def Let_def dilate_isBinaryMask erode_isBinaryMask)

lemma binaryMajority3x3_isBinaryMask: "isBinaryMask (binaryMajority3x3 a width height)"
  unfolding binaryMajority3x3_def
  by (rule raster_isBinaryMask) (simp add: Let_def)

subsection \<open>Opening is anti-extensive\<close>

lemma set_window:
  "set (window r width height x y)
     = {clampCoord height y ky * width + clampCoord width x kx | ky kx.
          - r \<le> ky \<and> ky \<le> r \<and> - r \<le> kx \<and> kx \<le> r}"
  by (auto simp: window_def) blast

lemma clampCoord_less: "x < n \<Longrightarrow> clampCoord n x k < n"
  by (auto simp: clampCoord_def)

lemma clampCoord_back:
  "x < n \<Longrightarrow> - 1 \<le> k \<Longrightarrow> k \<le> 1 \<Longrightarrow>
   \<exists>k'. - 1 \<le> k' \<and> k' \<le> 1 \<and> clampCoord n (clampCoord n x k) k' = x"
proof -
  assume a: "x < n" "- 1 \<le> k" "k \<le> 1"
  show ?thesis
  proof (cases "0 \<le> int x + k \<and> int x + k \<le> int n - 1")
    case True
    with a have "clampCoord n (clampCoord n x k) (- k) = x"
      by (auto simp: clampCoord_def)
    with a show ?thesis by (intro exI [of _ "- k"]) auto
  next
    case False
    with a have "clampCoord n x k = x"
      by (auto simp: clampCoord_def)
    moreover from a have "clampCoord n x 0 = x"
      by (auto simp: clampCoord_def)
    ultimately show ?thesis by (intro exI [of _ 0]) auto
  qed
qed

lemma window_symmetric:
  assumes "x < width" "y < height" "q \<in> set (window 1 width height x y)"
  shows "\<exists>cx cy. cx < width \<and> cy < height \<and> q = cy * width + cx
           \<and> y * width + x \<in> set (window 1 width height cx cy)"
proof -
  from assms(3) obtain ky kx where k: "- 1 \<le> ky" "ky \<le> 1" "- 1 \<le> kx" "kx \<le> 1"
    and q: "q = clampCoord height y ky * width + clampCoord width x kx"
    by (auto simp: set_window)
  from clampCoord_back [OF assms(1) k(3,4)] obtain kx' where
    kx': "- 1 \<le> kx'" "kx' \<le> 1" "clampCoord width (clampCoord width x kx) kx' = x" by blast
  from clampCoord_back [OF assms(2) k(1,2)] obtain ky' where
    ky': "- 1 \<le> ky'" "ky' \<le> 1" "clampCoord height (clampCoord height y ky) ky' = y" by blast
  have "y * width + x \<in> set (window 1 width height (clampCoord width x kx) (clampCoord height y ky))"
    unfolding set_window using kx' ky' by (intro CollectI exI [of _ ky'] exI [of _ kx']) simp
  with q assms(1,2) show ?thesis
    by (intro exI [of _ "clampCoord width x kx"] exI [of _ "clampCoord height y ky"])
       (simp add: clampCoord_less)
qed

lemma fold_mathMin_le:
  "fold (\<lambda>i m. mathMin m (rd a i)) is m = Some v \<Longrightarrow> j \<in> set is \<Longrightarrow>
   \<exists>u. rd a j = Some u \<and> v \<le> u"
  and fold_mathMin_le_start:
  "fold (\<lambda>i m. mathMin m (rd a i)) is m = Some v \<Longrightarrow> \<exists>b. m = Some b \<and> v \<le> b"
proof (induction "is" arbitrary: m)
  case Nil
  { case 1 then show ?case by simp }
  { case 2 then show ?case by simp }
next
  case (Cons i "is")
  { case 1
    from 1(1) have f: "fold (\<lambda>i m. mathMin m (rd a i)) is (mathMin m (rd a i)) = Some v" by simp
    from Cons.IH(2) [OF f] obtain b where b: "mathMin m (rd a i) = Some b" "v \<le> b" by blast
    show ?case
    proof (cases "j = i")
      case True
      with b show ?thesis
        by (auto simp: mathMin_def split: option.splits)
    next
      case False
      with 1(2) have "j \<in> set is" by simp
      from Cons.IH(1) [OF f this] show ?thesis .
    qed }
  { case 2
    from 2 have f: "fold (\<lambda>i m. mathMin m (rd a i)) is (mathMin m (rd a i)) = Some v" by simp
    from Cons.IH(2) [OF f] obtain b where b: "mathMin m (rd a i) = Some b" "v \<le> b" by blast
    then show ?case
      by (auto simp: mathMin_def split: option.splits) }
qed

lemma fold_mathMax_cases:
  "fold (\<lambda>i m. mathMax m (rd a i)) is m = Some v \<Longrightarrow>
   m = Some v \<or> (\<exists>j\<in>set is. rd a j = Some v)"
proof (induction "is" arbitrary: m)
  case Nil
  then show ?case by simp
next
  case (Cons i "is")
  from Cons.prems have "fold (\<lambda>i m. mathMax m (rd a i)) is (mathMax m (rd a i)) = Some v"
    by simp
  from Cons.IH [OF this] show ?case
    by (auto simp: mathMax_def max_def split: option.splits if_splits)
qed

lemma erode_le:
  assumes "q < length a" "cx < width" "cy < height" "q = cy * width + cx"
    and "p \<in> set (window 1 width height cx cy)" "p < length a"
  shows "erode 1 a width height ! q \<le> a ! p"
proof -
  let ?m = "fold (\<lambda>i m. mathMin m (rd a i)) (window 1 width height cx cy) (Some 255)"
  from assms(2,3,4) have "q < width * height"
    by (metis add.commute mult.commute mult_Suc_right Suc_leI less_le_trans mult_le_mono2 add_less_cancel_left)
  moreover from assms(2,4) have "q mod width = cx" "q div width = cy" by simp_all
  ultimately have e: "erode 1 a width height ! q = store ?m"
    using assms(1) by (simp add: erode_def nth_raster)
  show ?thesis
  proof (cases ?m)
    case None
    with e show ?thesis by (simp add: store_def)
  next
    case (Some v)
    from fold_mathMin_le [OF Some assms(5)] assms(6) have "v \<le> a ! p"
      by (simp add: rd_def)
    with e Some show ?thesis by (simp add: store_def)
  qed
qed

lemma morphologyOpen_le:
  assumes "i < length a"
  shows "morphologyOpen a width height ! i \<le> a ! i"
proof (cases "i < width * height")
  case False
  with assms show ?thesis
    by (simp add: morphologyOpen_def dilate_def nth_raster erode_def length_raster)
next
  case True
  then have w: "0 < width" by (cases width) auto
  let ?x = "i mod width" and ?y = "i div width"
  let ?e = "erode 1 a width height"
  let ?m = "fold (\<lambda>j m. mathMax m (rd ?e j)) (window 1 width height ?x ?y) (Some 0)"
  have len: "length ?e = length a" by (simp add: erode_def length_raster)
  have x: "?x < width" using w by simp
  have y: "?y < height" using True w by (simp add: less_mult_imp_div_less mult.commute)
  have i: "?y * width + ?x = i" by simp
  have d: "morphologyOpen a width height ! i = store ?m"
    using assms True by (simp add: morphologyOpen_def dilate_def nth_raster len)
  show ?thesis
  proof (cases ?m)
    case None
    with d show ?thesis by (simp add: store_def)
  next
    case (Some v)
    from fold_mathMax_cases [OF Some]
    consider "v = 0" | q where "q \<in> set (window 1 width height ?x ?y)" "rd ?e q = Some v"
      by auto
    then have "v \<le> a ! i"
    proof cases
      case 1
      then show ?thesis by simp
    next
      case 2
      from 2(2) have ql: "q < length a" and v: "v = ?e ! q"
        by (auto simp: rd_def len split: if_splits)
      from window_symmetric [OF x y 2(1)] obtain cx cy where
        c: "cx < width" "cy < height" "q = cy * width + cx"
           "?y * width + ?x \<in> set (window 1 width height cx cy)" by blast
      from c(4) i have "i \<in> set (window 1 width height cx cy)" by simp
      from erode_le [OF ql c(1,2,3) this assms] v show ?thesis by simp
    qed
    with d Some show ?thesis by (simp add: store_def)
  qed
qed

lemma byte_ge_255: "(255::byte) \<le> x \<Longrightarrow> x = 255"
proof -
  assume "255 \<le> x"
  then have "255 \<le> unat x" by (simp add: word_le_nat_alt)
  moreover have "unat x < 2 ^ 8" using unsigned_less [of x, where ?'a = nat] by simp
  ultimately have "unat x = unat (255::byte)" by simp
  then show ?thesis by (simp only: word_unat_eq_iff)
qed

lemma count255_mono:
  "length xs = length ys \<Longrightarrow> (\<forall>i<length xs. xs ! i = 255 \<longrightarrow> ys ! i = 255) \<Longrightarrow>
   count255 xs \<le> count255 ys"
proof (induction xs ys rule: list_induct2)
  case Nil
  then show ?case by (simp add: count255_def)
next
  case (Cons x xs y ys)
  from Cons.prems have h: "x = 255 \<longrightarrow> y = 255" by (auto dest: spec [of _ 0])
  from Cons.prems have "\<forall>i<length xs. xs ! i = 255 \<longrightarrow> ys ! i = 255" by fastforce
  from Cons.IH [OF this] h show ?case by (auto simp: count255_def)
qed

text \<open>
  Claim C5. For a buffer of any size and any contents (a binary mask in particular), and
  any width and height, morphologyOpen returns a buffer with at most as many samples
  equal to 255 as its input has: each output sample is bounded by the input sample at
  the same index.
\<close>

theorem morphologyOpen_antiextensive:
  "count255 (morphologyOpen binary width height) \<le> count255 binary"
proof (rule count255_mono)
  show "length (morphologyOpen binary width height) = length binary"
    by (simp add: morphologyOpen_def dilate_def erode_def length_raster)
next
  show "\<forall>i<length (morphologyOpen binary width height).
          morphologyOpen binary width height ! i = 255 \<longrightarrow> binary ! i = 255"
  proof (intro allI impI)
    fix i assume "i < length (morphologyOpen binary width height)"
      and v: "morphologyOpen binary width height ! i = 255"
    then have "i < length binary"
      by (simp add: morphologyOpen_def dilate_def erode_def length_raster)
    from morphologyOpen_le [OF this, of width height] v have "255 \<le> binary ! i" by simp
    then show "binary ! i = 255"
      by (rule byte_ge_255)
  qed
qed

text \<open>
  Claim C7. On a binary mask (all samples 0 or 255), morphologyOpen, morphologyCloseK
  with any kernel size (every odd k from 3 on included) and binaryMajority3x3 return
  buffers whose samples are all 0 or 255.
\<close>

theorem morphology_two_valued:
  "isBinaryMask a \<Longrightarrow>
   isBinaryMask (morphologyOpen a width height)
   \<and> isBinaryMask (morphologyCloseK a width height k)
   \<and> isBinaryMask (binaryMajority3x3 a width height)"
  by (simp add: morphologyOpen_isBinaryMask morphologyCloseK_isBinaryMask
      binaryMajority3x3_isBinaryMask)

theorem morphology_two_valued_witness:
  "isBinaryMask [255, 255, 0, 255, 0, 0]
   \<and> isBinaryMask (morphologyOpen [255, 255, 0, 255, 0, 0] 3 2)
   \<and> isBinaryMask (morphologyCloseK [255, 255, 0, 255, 0, 0] 3 2 5)
   \<and> isBinaryMask (binaryMajority3x3 [255, 255, 0, 255, 0, 0] 3 2)"
proof -
  have m: "isBinaryMask [255, 255, 0, 255, 0, 0]" by (simp add: isBinaryMask_def)
  from m morphology_two_valued [OF m, of 3 2 5] show ?thesis by blast
qed

section \<open>Properties of the string normalizers\<close>

lemma filter_keep_digits:
  "filter isDigit (filter (\<lambda>c. isDigit c \<or> c = 43) v) = filter isDigit v"
  by (induction v) auto

lemma plus_not_digit: "\<not> isDigit 43"
  by (simp add: isDigit_def)

lemma plusComesFirst_filter:
  "plusComesFirst v
   = (case filter (\<lambda>c. isDigit c \<or> c = 43) v of [] \<Rightarrow> False | c # _ \<Rightarrow> c = 43)"
  unfolding plusComesFirst_def by (induction v) auto

lemma normalizePhoneValue_char:
  "normalizePhoneValue v =
     (if \<forall>c\<in>set v. \<not> isDigit c \<and> c \<noteq> 43 then None
      else if plusComesFirst v then Some (43 # filter isDigit v)
      else Some (filter isDigit v))"
proof (cases "filter (\<lambda>c. isDigit c \<or> c = 43) v")
  case Nil
  then have "\<forall>c\<in>set v. \<not> isDigit c \<and> c \<noteq> 43"
    by (auto simp: filter_empty_conv)
  with Nil show ?thesis
    by (simp add: normalizePhoneValue_def)
next
  case (Cons c cs)
  then have "filter (\<lambda>c. isDigit c \<or> c = 43) v \<noteq> []" by simp
  then have ne: "\<not> (\<forall>c\<in>set v. \<not> isDigit c \<and> c \<noteq> 43)" "v \<noteq> []"
    by (auto simp: filter_empty_conv)
  have d: "filter isDigit (c # cs) = filter isDigit v"
    using filter_keep_digits [of v] Cons by simp
  show ?thesis
  proof (cases "c = 43")
    case True
    with d have "filter isDigit cs = filter isDigit v"
      by (simp add: plus_not_digit)
    with True Cons ne show ?thesis
      by (simp add: normalizePhoneValue_def plusComesFirst_filter)
  next
    case False
    with d Cons ne show ?thesis
      by (simp add: normalizePhoneValue_def plusComesFirst_filter)
  qed
qed

text \<open>
  Claim C9, as amended. normalizePhoneValue returns null for an input without any digit
  or plus sign. For every other input it drops all characters but the digits, and puts
  one plus sign in front of them exactly when the first character of the input that is a
  digit or a plus sign is a plus sign (so an input that begins with a plus sign keeps
  it). The two examples of the claim hold.
\<close>

theorem normalizePhoneValue_spec:
  "normalizePhoneValue v =
     (if \<forall>c\<in>set v. \<not> isDigit c \<and> c \<noteq> 43 then None
      else if plusComesFirst v then Some (43 # filter isDigit v)
      else Some (filter isDigit v))
   \<and> (\<forall>rest. v = 43 # rest \<longrightarrow> normalizePhoneValue v = Some (43 # filter isDigit rest))
   \<and> normalizePhoneValue (js ''+1 (555) 123-4567'') = Some (js ''+15551234567'')
   \<and> normalizePhoneValue (js ''555.123.4567'') = Some (js ''5551234567'')"
proof (intro conjI allI impI)
  show "normalizePhoneValue v =
     (if \<forall>c\<in>set v. \<not> isDigit c \<and> c \<noteq> 43 then None
      else if plusComesFirst v then Some (43 # filter isDigit v)
      else Some (filter isDigit v))"
    by (rule normalizePhoneValue_char)
next
  fix rest assume "v = 43 # rest"
  then show "normalizePhoneValue v = Some (43 # filter isDigit rest)"
    using filter_keep_digits [of rest]
    by (simp add: normalizePhoneValue_def plus_not_digit del: filter_filter)
next
  show "normalizePhoneValue (js ''+1 (555) 123-4567'') = Some (js ''+15551234567'')"
    by code_simp
next
  show "normalizePhoneValue (js ''555.123.4567'') = Some (js ''5551234567'')"
    by code_simp
qed

theorem normalizePhoneValue_spec_witness:
  "plusComesFirst (js ''+44 20'')
   \<and> js ''+44 20'' = 43 # js ''44 20''
   \<and> normalizePhoneValue (js ''+44 20'') = Some (js ''+4420'')
   \<and> filter (\<lambda>c. isDigit c \<or> c = 43) (js ''n/a'') = []
   \<and> normalizePhoneValue (js ''n/a'') = None"
proof -
  have b: "plusComesFirst (js ''+44 20'')"
    by (simp add: js_def plusComesFirst_def isDigit_def)
  have c: "js ''+44 20'' = 43 # js ''44 20''"
    by (simp add: js_def)
  have d: "filter (\<lambda>c. isDigit c \<or> c = 43) (js ''n/a'') = []"
    by (simp add: js_def isDigit_def)
  then have d': "\<forall>c\<in>set (js ''n/a''). \<not> isDigit c \<and> c \<noteq> 43"
    by (simp add: filter_empty_conv)
  have e: "filter isDigit (js ''44 20'') = js ''4420''"
    by (simp add: js_def isDigit_def)
  have "\<forall>rest. js ''+44 20'' = 43 # rest
           \<longrightarrow> normalizePhoneValue (js ''+44 20'') = Some (43 # filter isDigit rest)"
    using normalizePhoneValue_spec [of "js ''+44 20''"] by blast
  with c have "normalizePhoneValue (js ''+44 20'') = Some (43 # filter isDigit (js ''44 20''))"
    by blast
  with e have f: "normalizePhoneValue (js ''+44 20'') = Some (js ''+4420'')"
    by (simp add: js_def)
  have "normalizePhoneValue (js ''n/a'') =
     (if \<forall>c\<in>set (js ''n/a''). \<not> isDigit c \<and> c \<noteq> 43 then None
      else if plusComesFirst (js ''n/a'') then Some (43 # filter isDigit (js ''n/a''))
      else Some (filter isDigit (js ''n/a'')))"
    using normalizePhoneValue_spec [of "js ''n/a''"] by blast
  with d' have g: "normalizePhoneValue (js ''n/a'') = None"
    by simp
  from b c d f g show ?thesis by blast
qed

text \<open>
  The claim as stated fails: an input that does not begin with a plus sign can still
  come out with one, and an input without digits yields null rather than a string.
\<close>

theorem normalizePhoneValue_counterexample:
  "hd (js ''(+1) 555'') \<noteq> 43
   \<and> normalizePhoneValue (js ''(+1) 555'') = Some (js ''+1555'')
   \<and> normalizePhoneValue (js ''n/a'') = None"
  by code_simp

lemmas email_defs = normalizeEmailCandidate_def js_def isWhiteSpace_def punctNormalize_def
  confusionMap_def isEmailAlphabet_def toLowerCaseAscii_def isUpper_def isLower_def isDigit_def

lemma normalizeEmail_first_pass: "normalizeEmailCandidate (js ''a.(.b'') = js ''a..b''"
  by (simp add: email_defs)

lemma normalizeEmail_second_pass: "normalizeEmailCandidate (js ''a..b'') = js ''a.b''"
  by (simp add: email_defs)

text \<open>
  Claim C3. Normalizing an email candidate twice should give the same string as
  normalizing it once. The dots are collapsed before the characters outside the email
  alphabet are dropped, so dropping a character between two dots leaves a double dot in
  the result, which a second pass collapses.
\<close>

theorem normalizeEmailCandidate_not_idempotent:
  "normalizeEmailCandidate (js ''a.(.b'') = js ''a..b''
   \<and> normalizeEmailCandidate (normalizeEmailCandidate (js ''a.(.b'')) = js ''a.b''
   \<and> normalizeEmailCandidate (normalizeEmailCandidate (js ''a.(.b''))
       \<noteq> normalizeEmailCandidate (js ''a.(.b'')"
proof -
  have "js ''a.b'' \<noteq> js ''a..b''" by (simp add: js_def)
  with normalizeEmail_first_pass normalizeEmail_second_pass show ?thesis by simp
qed

text \<open>
  The dots are the only obstacle: a second pass changes nothing whenever the first
  result holds no run of dots.
\<close>

lemma set_collapseDots: "set (collapseDots s) \<subseteq> set s"
  by (induction s rule: collapseDots.induct) auto

lemma confusion_cases:
  "(case confusionMap ch of Some r \<Rightarrow> r | None \<Rightarrow> ch) \<in> {111, 108, 115, 98, 122}
   \<or> ((case confusionMap ch of Some r \<Rightarrow> r | None \<Rightarrow> ch) = ch
       \<and> ch \<notin> {79, 73, 83, 66, 90, 48, 49, 53})"
  by (simp add: confusionMap_def)

lemma lower_of_alphabet:
  assumes "isEmailAlphabet c" "c \<in> {111, 108, 115, 98, 122} \<or> c \<notin> {79, 73, 83, 66, 90, 48, 49, 53}"
  shows "isNormalizedChar (if isUpper c then c + 32 else c)"
  using assms
  by (auto simp: isEmailAlphabet_def isNormalizedChar_def isUpper_def isLower_def isDigit_def)

lemma normalize_unfold:
  "x \<noteq> [] \<Longrightarrow>
   normalizeEmailCandidate x =
     toLowerCaseAscii (filter isEmailAlphabet (collapseDots
       (map (\<lambda>ch. case confusionMap ch of Some r \<Rightarrow> r | None \<Rightarrow> ch)
         (map punctNormalize (filter (\<lambda>c. \<not> isWhiteSpace c) x)))))"
  unfolding normalizeEmailCandidate_def Let_def by (rule if_not_P)

lemma normalized_chars: "\<forall>c\<in>set (normalizeEmailCandidate x). isNormalizedChar c"
proof (cases "x = []")
  case True
  then show ?thesis by (simp add: normalizeEmailCandidate_def)
next
  case False
  let ?m = "map (\<lambda>ch. case confusionMap ch of Some r \<Rightarrow> r | None \<Rightarrow> ch)
              (map punctNormalize (filter (\<lambda>c. \<not> isWhiteSpace c) x))"
  have m: "\<forall>c\<in>set ?m. c \<in> {111, 108, 115, 98, 122} \<or> c \<notin> {79, 73, 83, 66, 90, 48, 49, 53}"
  proof
    fix c assume "c \<in> set ?m"
    then obtain ch where "c = (case confusionMap ch of Some r \<Rightarrow> r | None \<Rightarrow> ch)" by auto
    with confusion_cases [of ch] show "c \<in> {111, 108, 115, 98, 122} \<or> c \<notin> {79, 73, 83, 66, 90, 48, 49, 53}"
      by auto
  qed
  have "\<forall>c\<in>set (filter isEmailAlphabet (collapseDots ?m)).
          isNormalizedChar (if isUpper c then c + 32 else c)"
  proof
    fix c assume c: "c \<in> set (filter isEmailAlphabet (collapseDots ?m))"
    then have "c \<in> set ?m" using set_collapseDots [of ?m] by auto
    with m c show "isNormalizedChar (if isUpper c then c + 32 else c)"
      by (intro lower_of_alphabet) auto
  qed
  then have "\<forall>c\<in>set (toLowerCaseAscii (filter isEmailAlphabet (collapseDots ?m))).
          isNormalizedChar c"
    unfolding toLowerCaseAscii_def set_map by blast
  then show ?thesis
    by (simp only: normalize_unfold [OF False])
qed

lemma normalized_char_stable:
  assumes "isNormalizedChar c"
  shows "\<not> isWhiteSpace c" "punctNormalize c = c" "confusionMap c = None"
    "isEmailAlphabet c" "\<not> isUpper c"
  using assms
  by (auto simp: isNormalizedChar_def isWhiteSpace_def punctNormalize_def confusionMap_def
      isEmailAlphabet_def isUpper_def isLower_def isDigit_def)

lemma normalize_normalized:
  assumes "\<forall>c\<in>set y. isNormalizedChar c" "collapseDots y = y"
  shows "normalizeEmailCandidate y = y"
proof (cases "y = []")
  case True
  then show ?thesis by (simp add: normalizeEmailCandidate_def)
next
  case False
  have 1: "filter (\<lambda>c. \<not> isWhiteSpace c) y = y"
    using assms(1) by (simp add: normalized_char_stable(1))
  have 2: "map punctNormalize y = y"
    using assms(1) by (intro map_idI) (simp add: normalized_char_stable(2))
  have 3: "map (\<lambda>ch. case confusionMap ch of Some r \<Rightarrow> r | None \<Rightarrow> ch) y = y"
    using assms(1) by (intro map_idI) (simp add: normalized_char_stable(3))
  have 4: "filter isEmailAlphabet y = y"
    using assms(1) by (simp add: normalized_char_stable(4))
  have 5: "toLowerCaseAscii y = y"
    unfolding toLowerCaseAscii_def using assms(1)
    by (intro map_idI) (simp add: normalized_char_stable(5))
  show ?thesis
    by (simp only: normalize_unfold [OF False] 1 2 3 assms(2) 4 5)
qed

lemma normalizeEmailCandidate_idempotent_without_dot_run:
  "collapseDots (normalizeEmailCandidate x) = normalizeEmailCandidate x \<Longrightarrow>
   normalizeEmailCandidate (normalizeEmailCandidate x) = normalizeEmailCandidate x"
  by (rule normalize_normalized [OF normalized_chars])

section \<open>Properties of computeAutoCropBox\<close>

lemma hasRunAbove_iff:
  "hasRunAbove arr thresh runReq \<longleftrightarrow>
     (\<exists>i. i + nat runReq \<le> length arr
          \<and> (\<forall>a\<in>set (take (nat runReq) (drop i arr)). int a > thresh))"
  by (auto simp: hasRunAbove_def list_ex_iff list_all_iff)

lemma hasRunAbove_Cons: "hasRunAbove rest thresh runReq \<Longrightarrow> hasRunAbove (a # rest) thresh runReq"
  unfolding hasRunAbove_iff
proof -
  assume "\<exists>i. i + nat runReq \<le> length rest
            \<and> (\<forall>a\<in>set (take (nat runReq) (drop i rest)). int a > thresh)"
  then obtain i where "i + nat runReq \<le> length rest"
    "\<forall>a\<in>set (take (nat runReq) (drop i rest)). int a > thresh" by blast
  then have "Suc i + nat runReq \<le> length (a # rest)
    \<and> (\<forall>b\<in>set (take (nat runReq) (drop (Suc i) (a # rest))). int b > thresh)" by simp
  then show "\<exists>i. i + nat runReq \<le> length (a # rest)
            \<and> (\<forall>b\<in>set (take (nat runReq) (drop i (a # rest))). int b > thresh)" by blast
qed

lemma hasRunAbove_rev: "hasRunAbove (rev arr) thresh runReq \<Longrightarrow> hasRunAbove arr thresh runReq"
  unfolding hasRunAbove_iff
proof -
  let ?n = "nat runReq"
  assume "\<exists>i. i + ?n \<le> length (rev arr)
            \<and> (\<forall>a\<in>set (take ?n (drop i (rev arr))). int a > thresh)"
  then obtain i where i: "i + ?n \<le> length arr"
    and a: "\<forall>a\<in>set (take ?n (drop i (rev arr))). int a > thresh" by auto
  let ?j = "length arr - (i + ?n)"
  have "take ?n (drop i (rev arr)) = rev (drop ?j (take (length arr - i) arr))"
    using i by (simp add: drop_rev take_rev)
  moreover have "drop ?j (take (length arr - i) arr) = take ?n (drop ?j arr)"
    using i by (simp add: drop_take)
  ultimately have "take ?n (drop i (rev arr)) = rev (take ?n (drop ?j arr))"
    by simp
  with a have "\<forall>a\<in>set (take ?n (drop ?j arr)). int a > thresh" by simp
  moreover from i have "?j + ?n \<le> length arr" by simp
  ultimately show "\<exists>i. i + ?n \<le> length arr
            \<and> (\<forall>a\<in>set (take ?n (drop i arr)). int a > thresh)" by blast
qed

text \<open>
  Without a run in the array, a prefix of entries above the threshold is shorter than
  the required length.
\<close>

lemma noRun_prefix:
  assumes "\<not> hasRunAbove xs thresh runReq" "k \<le> length xs"
    "\<forall>a\<in>set (take k xs). int a > thresh"
  shows "int k < runReq"
proof (rule ccontr)
  assume "\<not> int k < runReq"
  then have n: "nat runReq \<le> k" by simp
  then have "set (take (nat runReq) xs) \<subseteq> set (take k xs)"
    by (rule set_take_subset_set_take)
  with assms(3) have "\<forall>a\<in>set (take (nat runReq) (drop 0 xs)). int a > thresh" by auto
  moreover from n assms(2) have "0 + nat runReq \<le> length xs" by simp
  ultimately have "hasRunAbove xs thresh runReq"
    unfolding hasRunAbove_iff by blast
  with assms(1) show False by simp
qed

lemma firstRunLoop_default:
  assumes "\<not> hasRunAbove xs thresh runReq"
    "\<forall>k\<le>length xs. (\<forall>a\<in>set (take k xs). int a > thresh) \<longrightarrow> run + int k < runReq"
  shows "firstRunLoop thresh runReq xs i run = 0"
  using assms
proof (induction xs arbitrary: i run)
  case Nil
  then show ?case by simp
next
  case (Cons a rest)
  have nr: "\<not> hasRunAbove rest thresh runReq"
    using Cons.prems(1) hasRunAbove_Cons by blast
  show ?case
  proof (cases "int a > thresh")
    case True
    from Cons.prems(2) [rule_format, of 1] True have small: "run + 1 < runReq" by simp
    have "\<forall>k\<le>length rest. (\<forall>b\<in>set (take k rest). int b > thresh) \<longrightarrow> (run + 1) + int k < runReq"
    proof (intro allI impI)
      fix k assume k: "k \<le> length rest" and above: "\<forall>b\<in>set (take k rest). int b > thresh"
      have "\<forall>b\<in>set (take (Suc k) (a # rest)). int b > thresh"
        using True above by simp
      moreover have "Suc k \<le> length (a # rest)" using k by simp
      ultimately have "run + int (Suc k) < runReq"
        using Cons.prems(2) by blast
      then show "(run + 1) + int k < runReq" by simp
    qed
    from Cons.IH [OF nr this] True small show ?thesis by simp
  next
    case False
    have "\<forall>k\<le>length rest. (\<forall>b\<in>set (take k rest). int b > thresh) \<longrightarrow> 0 + int k < runReq"
      using noRun_prefix [OF nr] by simp
    from Cons.IH [OF nr this] False show ?thesis by simp
  qed
qed

lemma lastRunLoop_default:
  assumes "\<not> hasRunAbove xs thresh runReq"
    "\<forall>k\<le>length xs. (\<forall>a\<in>set (take k xs). int a > thresh) \<longrightarrow> run + int k < runReq"
  shows "lastRunLoop thresh runReq n xs i run = n - 1"
  using assms
proof (induction xs arbitrary: i run)
  case Nil
  then show ?case by simp
next
  case (Cons a rest)
  have nr: "\<not> hasRunAbove rest thresh runReq"
    using Cons.prems(1) hasRunAbove_Cons by blast
  show ?case
  proof (cases "int a > thresh")
    case True
    from Cons.prems(2) [rule_format, of 1] True have small: "run + 1 < runReq" by simp
    have "\<forall>k\<le>length rest. (\<forall>b\<in>set (take k rest). int b > thresh) \<longrightarrow> (run + 1) + int k < runReq"
    proof (intro allI impI)
      fix k assume k: "k \<le> length rest" and above: "\<forall>b\<in>set (take k rest). int b > thresh"
      have "\<forall>b\<in>set (take (Suc k) (a # rest)). int b > thresh"
        using True above by simp
      moreover have "Suc k \<le> length (a # rest)" using k by simp
      ultimately have "run + int (Suc k) < runReq"
        using Cons.prems(2) by blast
      then show "(run + 1) + int k < runReq" by simp
    qed
    from Cons.IH [OF nr this] True small show ?thesis by simp
  next
    case False
    have "\<forall>k\<le>length rest. (\<forall>b\<in>set (take k rest). int b > thresh) \<longrightarrow> 0 + int k < runReq"
      using noRun_prefix [OF nr] by simp
    from Cons.IH [OF nr this] False show ?thesis by simp
  qed
qed

lemma firstRunAbove_no_run:
  "\<not> hasRunAbove arr thresh runReq \<Longrightarrow> firstRunAbove arr thresh runReq = 0"
  unfolding firstRunAbove_def
  by (rule firstRunLoop_default) (use noRun_prefix in auto)

lemma lastRunAbove_no_run:
  "\<not> hasRunAbove arr thresh runReq \<Longrightarrow> lastRunAbove arr thresh runReq = int (length arr) - 1"
  unfolding lastRunAbove_def
proof (rule lastRunLoop_default)
  assume "\<not> hasRunAbove arr thresh runReq"
  then show nr: "\<not> hasRunAbove (rev arr) thresh runReq"
    using hasRunAbove_rev by blast
  show "\<forall>k\<le>length (rev arr). (\<forall>a\<in>set (take k (rev arr)). int a > thresh) \<longrightarrow> 0 + int k < runReq"
    using noRun_prefix [OF nr] by simp
qed

text \<open>
  Claim C2. For a mask wider and higher than 3 pixels in which neither the row counts
  nor the column counts hold a run of \<open>minRun\<close> entries above their thresholds, the
  claim expects null. Both scans then return their defaults, 0 and the last index, the
  test on line 806 does not fire, and the function returns the box of the whole image.
\<close>

theorem computeAutoCropBox_no_run:
  assumes "3 < width" "3 < height" "0 \<le> p"
    and "\<not> hasRunAbove (rowSum binary width height) (max 1 \<lfloor>of_nat width * mf\<rfloor>) mr"
    and "\<not> hasRunAbove (colSum binary width height) (max 1 \<lfloor>of_nat height * mf\<rfloor>) mr"
  shows "computeAutoCropBox binary width height \<lparr>minFrac = Some mf, minRun = Some mr, pad = Some p\<rparr>
         = Some \<lparr>box_x = 0, box_y = 0, box_w = int width, box_h = int height\<rparr>"
proof -
  have lr: "length (rowSum binary width height) = height"
    and lc: "length (colSum binary width height) = width"
    by (simp_all add: rowSum_def colSum_def)
  note f = firstRunAbove_no_run [OF assms(4)] firstRunAbove_no_run [OF assms(5)]
  note l = lastRunAbove_no_run [OF assms(4)] lastRunAbove_no_run [OF assms(5)]
  show ?thesis
    unfolding computeAutoCropBox_def Let_def cropOpts.simps option.case f l lr lc
    using assms(1,2,3) by simp
qed

theorem computeAutoCropBox_no_run_witness:
  "\<not> hasRunAbove (rowSum diagMask 5 5) (max 1 \<lfloor>of_nat 5 * (35 / 100)\<rfloor>) 10
   \<and> \<not> hasRunAbove (colSum diagMask 5 5) (max 1 \<lfloor>of_nat 5 * (35 / 100)\<rfloor>) 10
   \<and> computeAutoCropBox diagMask 5 5 pipelineCropOpts
       = Some \<lparr>box_x = 0, box_y = 0, box_w = 5, box_h = 5\<rparr>"
proof -
  have r: "\<not> hasRunAbove (rowSum diagMask 5 5) (max 1 \<lfloor>of_nat 5 * (35 / 100)\<rfloor>) 10"
    by (simp add: hasRunAbove_def rowSum_def list_ex_iff)
  have c: "\<not> hasRunAbove (colSum diagMask 5 5) (max 1 \<lfloor>of_nat 5 * (35 / 100)\<rfloor>) 10"
    by (simp add: hasRunAbove_def colSum_def list_ex_iff)
  from computeAutoCropBox_no_run [of 5 5 8, OF _ _ _ r c] r c show ?thesis
    by (simp add: pipelineCropOpts_def)
qed

section \<open>Properties of the field extractor\<close>






subsection \<open>A word without text makes extractPhone throw\<close>









lemmas regex_eval = regexTest_def PHONE_REGEX_def EMAIL_REGEX_def js_def isDigit_def
  isWhiteSpace_def isLetter_def isUpper_def isLower_def





section \<open>Properties of the refinement pass\<close>

text \<open>
  Claim C1, as amended. For a field with a bounding box that is eligible for refinement
  (confidence below 70, or no value), the refinement pass replaces value and confidence
  by the refined ones exactly when the refined value is non-empty and either the field
  has no value or the refined confidence exceeds the field's confidence; in every other
  case the field is returned unchanged.
\<close>

theorem maybeRefineLowConfidence_accepts:
  assumes "f_bbox field = Some b"
    and "f_confidence field < 70 \<or> \<not> truthy (f_value field)"
  shows "maybeRefineLowConfidence recognize cv field whitelist psm postProcess postExtract =
     (let refined = recognize whitelist psm (refineRegion cv b);
          rv = refinedValue refined postProcess postExtract;
          rc = refinedConfidence refined
      in if truthy rv \<and> (\<not> truthy (f_value field) \<or> rc > f_confidence field)
         then field\<lparr>f_value := rv, f_confidence := rc\<rparr>
         else field)"
  using assms by (auto simp: maybeRefineLowConfidence_def Let_def)

lemmas refine_defs = refinedValue_def refinedConfidence_def meanConfidence_def mkWord_def
  truthy_def trim_def isWhiteSpace_def js_def

lemma scenario_normalized: "normalizeEmailCandidate (js ''j0@ex.io'') = js ''jo@ex.io''"
  by (simp add: email_defs)

lemma scenario_normalized_again: "normalizeEmailCandidate (js ''jo@ex.io'') = js ''jo@ex.io''"
  by (simp add: email_defs)

lemma scenario_match: "regexMatch EMAIL_REGEX (js ''jo@ex.io'') = Some (js ''jo@ex.io'')"
  by (simp add: regex_eval)

lemma scenario_trim: "trim (js ''j0@ex.io '') = js ''j0@ex.io''"
  by (simp add: trim_def js_def isWhiteSpace_def)

lemma scenario_refined_value:
  "refinedValue (scenarioEngine w p r) (Some emailPostProcess) (Some emailPostExtract)
     = Some (js ''jo@ex.io'')"
  by (simp add: refinedValue_def scenarioEngine_def emailPostProcess_def emailPostExtract_def
      scenario_trim scenario_normalized scenario_match scenario_normalized_again)

lemma scenario_refined_confidence: "refinedConfidence (scenarioEngine w p r) = 80"
  by (simp add: scenarioEngine_def refine_defs)

theorem maybeRefineLowConfidence_accepts_witness:
  "f_bbox scenarioField = Some \<lparr>x0 = 0, y0 = 10, x1 = 100, y1 = 30\<rparr>
   \<and> f_confidence scenarioField < 70
   \<and> maybeRefineLowConfidence scenarioEngine sampleCanvas scenarioField
        (js ''abcdefghijklmnopqrstuvwxyz0123456789+@._-'') 7
        (Some emailPostProcess) (Some emailPostExtract)
      = scenarioField\<lparr>f_value := Some (js ''jo@ex.io''), f_confidence := 80\<rparr>"
proof -
  have b: "f_bbox scenarioField = Some \<lparr>x0 = 0, y0 = 10, x1 = 100, y1 = 30\<rparr>"
    by (simp add: scenarioField_def)
  have c: "f_confidence scenarioField < 70"
    by (simp add: scenarioField_def)
  then have e: "f_confidence scenarioField < 70 \<or> \<not> truthy (f_value scenarioField)"
    by simp
  have f: "f_confidence scenarioField = 45"
    by (simp add: scenarioField_def)
  have t: "truthy (Some (js ''jo@ex.io''))"
    by (simp add: truthy_def js_def)
  from maybeRefineLowConfidence_accepts [OF b e, where recognize = scenarioEngine
      and whitelist = "js ''abcdefghijklmnopqrstuvwxyz0123456789+@._-''" and psm = 7
      and cv = sampleCanvas and postProcess = "Some emailPostProcess"
      and postExtract = "Some emailPostExtract"]
  have "maybeRefineLowConfidence scenarioEngine sampleCanvas scenarioField
        (js ''abcdefghijklmnopqrstuvwxyz0123456789+@._-'') 7
        (Some emailPostProcess) (Some emailPostExtract)
      = scenarioField\<lparr>f_value := Some (js ''jo@ex.io''), f_confidence := 80\<rparr>"
    by (simp add: Let_def scenario_refined_value scenario_refined_confidence t f)
  with b c show ?thesis by blast
qed

text \<open>
  The claim as stated fails for a field without a value: the refined value is accepted
  although the refined confidence (30) does not exceed the field's confidence (50).
\<close>

theorem maybeRefineLowConfidence_counterexample:
  "\<not> truthy (f_value valuelessField)
   \<and> f_confidence valuelessField = 50
   \<and> refinedConfidence (weakEngine (js ''abc'') 7 (refineRegion sampleCanvas \<lparr>x0 = 0, y0 = 10, x1 = 100, y1 = 30\<rparr>)) = 30
   \<and> maybeRefineLowConfidence weakEngine sampleCanvas valuelessField (js ''abc'') 7 None None
      = valuelessField\<lparr>f_value := Some (js ''a''), f_confidence := 30\<rparr>"
  by (simp add: maybeRefineLowConfidence_def valuelessField_def weakEngine_def refine_defs)

section \<open>Properties of otsuThreshold\<close>

lemma length_histogram_fold:
  "length (fold (\<lambda>v histogram. histogram[unat v := histogram ! unat v + 1]) vs h) = length h"
  by (induction vs arbitrary: h) simp_all

lemma length_histogramOf: "length (histogramOf vs) = 256"
  by (simp only: histogramOf_def length_histogram_fold length_replicate)

lemma sum_list_bump: "k < length h \<Longrightarrow> sum_list (h[k := h ! k + 1]) = sum_list h + (1::nat)"
proof (induction h arbitrary: k)
  case Nil
  then show ?case by simp
next
  case (Cons a h)
  then show ?case by (cases k) simp_all
qed

lemma byte_index: "unat (v :: byte) < 256"
  using unsigned_less [of v, where ?'a = nat] by simp

lemma sum_list_histogram_fold:
  "length h = 256 \<Longrightarrow>
   sum_list (fold (\<lambda>v histogram. histogram[unat v := histogram ! unat v + 1]) (vs :: buffer) h)
     = sum_list h + length vs"
proof (induction vs arbitrary: h)
  case Nil
  then show ?case by simp
next
  case (Cons v vs)
  have len: "length (h[unat v := h ! unat v + 1]) = 256" using Cons.prems by simp
  have "sum_list (h[unat v := h ! unat v + 1]) = sum_list h + 1"
    using Cons.prems byte_index [of v] by (intro sum_list_bump) simp
  with Cons.IH [OF len] show ?case by simp
qed

lemma sum_list_histogramOf: "sum_list (histogramOf vs) = length vs"
  using sum_list_histogram_fold [of "replicate 256 0" vs] by (simp add: histogramOf_def)

lemma int_sum_list: "int (sum_list xs) = (\<Sum>x\<leftarrow>xs. int x)"
  by (induction xs) simp_all

lemma classWeight_all: "classWeight (histogramOf vs) [0..<256] = int (length vs)"
proof -
  let ?h = "histogramOf vs"
  have "map ((!) ?h) [0..<256] = ?h"
    using map_nth [of ?h] by (simp add: length_histogramOf)
  then have "sum_list (map ((!) ?h) [0..<256]) = length vs"
    by (simp add: sum_list_histogramOf)
  moreover have "classWeight ?h [0..<256] = int (sum_list (map ((!) ?h) [0..<256]))"
    unfolding classWeight_def by (simp only: int_sum_list map_map comp_def)
  ultimately show ?thesis by simp
qed

lemma fold_classSum:
  "fold (\<lambda>i acc. acc + int i * int (h ! i)) bins a = a + classSum h bins"
  by (induction bins arbitrary: a) (simp_all add: classSum_def)

lemma classWeight_append [simp]:
  "classWeight h (xs @ ys) = classWeight h xs + classWeight h ys"
  by (simp add: classWeight_def)

lemma classSum_append [simp]:
  "classSum h (xs @ ys) = classSum h xs + classSum h ys"
  by (simp add: classSum_def)

lemma classWeight_nonneg: "0 \<le> classWeight h bins"
  unfolding classWeight_def by (rule sum_list_nonneg) auto

lemma bins_split: "i < 256 \<Longrightarrow> [0..<256] = [0..<Suc i] @ [Suc i..<256]"
  using upt_add_eq_append [of 0 "Suc i" "255 - i"] by simp

lemma bins_Suc: "classWeight h [0..<Suc i] = classWeight h [0..<i] + int (h ! i)"
  "classSum h [0..<Suc i] = classSum h [0..<i] + int i * int (h ! i)"
  by (simp_all add: classWeight_def classSum_def)

lemma foreground_weight:
  assumes "i < 256"
  shows "classWeight (histogramOf vs) [Suc i..<256]
     = int (length vs) - classWeight (histogramOf vs) [0..<Suc i]"
proof -
  let ?h = "histogramOf vs"
  have "classWeight ?h [0..<256] = classWeight ?h ([0..<Suc i] @ [Suc i..<256])"
    using bins_split [OF assms] by simp
  then have "classWeight ?h [0..<256] = classWeight ?h [0..<Suc i] + classWeight ?h [Suc i..<256]"
    by (simp only: classWeight_append)
  with classWeight_all [of vs] show ?thesis by simp
qed

lemma foreground_sum:
  assumes "i < 256"
  shows "classSum h [Suc i..<256] = classSum h [0..<256] - classSum h [0..<Suc i]"
proof -
  have "classSum h [0..<256] = classSum h ([0..<Suc i] @ [Suc i..<256])"
    using bins_split [OF assms] by simp
  then have "classSum h [0..<256] = classSum h [0..<Suc i] + classSum h [Suc i..<256]"
    by (simp only: classSum_append)
  then show ?thesis by simp
qed

lemma foreground_antimono:
  assumes "i \<le> u"
  shows "classWeight h [Suc u..<256] \<le> classWeight h [Suc i..<256]"
proof (cases "u < 256")
  case True
  with assms have "[Suc i..<256] = [Suc i..<Suc u] @ [Suc u..<256]"
    using upt_add_eq_append [of "Suc i" "Suc u" "255 - u"] by simp
  then have "classWeight h [Suc i..<256]
      = classWeight h [Suc i..<Suc u] + classWeight h [Suc u..<256]"
    by (simp only: classWeight_append)
  then show ?thesis
    using classWeight_nonneg [of h "[Suc i..<Suc u]"] by simp
next
  case False
  then have "[Suc u..<256] = []" by simp
  then have "classWeight h [Suc u..<256] = 0" by (simp add: classWeight_def)
  then show ?thesis using classWeight_nonneg [of h "[Suc i..<256]"] by simp
qed

subsection \<open>The computed variance is never negative\<close>

lemma rnd_sign:
  assumes "keepsSign rnd"
  shows "0 \<le> x \<Longrightarrow> 0 \<le> rnd x" and "x \<le> 0 \<Longrightarrow> rnd x \<le> 0"
  using assms by (simp_all add: keepsSign_def)

lemma betweenOf_nonneg:
  assumes "keepsSign rnd" "0 \<le> wB" "0 \<le> wF"
  shows "0 \<le> betweenOf rnd wB wF sumB sumF"
proof -
  let ?d = "rnd (rnd (of_int sumB / of_int wB) - rnd (of_int sumF / of_int wF))"
  let ?p = "rnd (of_int wB * of_int wF)"
  from assms(2,3) have "(0::rat) \<le> of_int wB * of_int wF" by simp
  then have p: "0 \<le> ?p" by (rule rnd_sign(1) [OF assms(1)])
  have "0 \<le> rnd (?p * ?d) * ?d"
  proof (cases "0 \<le> ?d")
    case True
    with p have "0 \<le> ?p * ?d" by simp
    then have "0 \<le> rnd (?p * ?d)" by (rule rnd_sign(1) [OF assms(1)])
    with True show ?thesis by simp
  next
    case False
    then have d: "?d \<le> 0" by simp
    with p have "?p * ?d \<le> 0" by (simp add: mult_nonneg_nonpos)
    then have "rnd (?p * ?d) \<le> 0" by (rule rnd_sign(2) [OF assms(1)])
    with d show ?thesis by (simp add: mult_nonpos_nonpos)
  qed
  then have "0 \<le> rnd (rnd (?p * ?d) * ?d)" by (rule rnd_sign(1) [OF assms(1)])
  then show ?thesis by (simp add: betweenOf_def Let_def)
qed

lemma computedVariance_nonneg:
  assumes "keepsSign rnd"
  shows "0 \<le> computedVariance rnd vs t"
  unfolding computedVariance_def Let_def
  by (simp add: betweenOf_nonneg [OF assms] classWeight_nonneg)


subsection \<open>The loop returns the lowest maximizer\<close>

lemma lowestMaximizer_from_invariant:
  assumes nonneg: "\<And>u. 0 \<le> B u"
    and bound: "\<forall>u\<le>255. B u \<le> M"
    and th: "th \<le> 255"
    and best: "(M = 0 \<and> th = 0) \<or> (B th = M \<and> (\<forall>u<th. B u < M))"
  shows "lowestMaximizer B th"
  using best
proof
  assume z: "M = 0 \<and> th = 0"
  have "\<forall>u\<le>255. B u \<le> B 0"
  proof (intro allI impI)
    fix u :: nat assume "u \<le> 255"
    with bound z have "B u \<le> 0" by simp
    with nonneg [of 0] show "B u \<le> B 0" by simp
  qed
  with z show ?thesis by (simp add: lowestMaximizer_def)
next
  assume "B th = M \<and> (\<forall>u<th. B u < M)"
  with bound th show ?thesis by (simp add: lowestMaximizer_def)
qed

lemma otsuLoop_step:
  assumes "i < 256"
  shows "otsuLoop rnd h t s [i..<256] wB sumB M th =
     (if wB + int (h ! i) = 0 then otsuLoop rnd h t s [Suc i..<256] (wB + int (h ! i)) sumB M th
      else if t - (wB + int (h ! i)) = 0 then th
      else if betweenOf rnd (wB + int (h ! i)) (t - (wB + int (h ! i)))
                 (sumB + int i * int (h ! i)) (s - (sumB + int i * int (h ! i))) > M
      then otsuLoop rnd h t s [Suc i..<256] (wB + int (h ! i)) (sumB + int i * int (h ! i))
             (betweenOf rnd (wB + int (h ! i)) (t - (wB + int (h ! i)))
                 (sumB + int i * int (h ! i)) (s - (sumB + int i * int (h ! i)))) i
      else otsuLoop rnd h t s [Suc i..<256] (wB + int (h ! i)) (sumB + int i * int (h ! i)) M th)"
proof -
  from assms have "[i..<256] = i # [Suc i..<256]" by (simp add: upt_conv_Cons)
  then show ?thesis by (simp add: Let_def)
qed

lemma computedVariance_at:
  assumes "i < 256"
  shows "computedVariance rnd vs i =
     (if classWeight (histogramOf vs) [0..<Suc i] = 0
         \<or> int (length vs) - classWeight (histogramOf vs) [0..<Suc i] = 0 then 0
      else betweenOf rnd (classWeight (histogramOf vs) [0..<Suc i])
             (int (length vs) - classWeight (histogramOf vs) [0..<Suc i])
             (classSum (histogramOf vs) [0..<Suc i])
             (classSum (histogramOf vs) [0..<256] - classSum (histogramOf vs) [0..<Suc i]))"
  unfolding computedVariance_def Let_def
  by (simp only: foreground_weight [OF assms] foreground_sum [OF assms])

lemma computedVariance_empty_foreground:
  assumes "i < 256" "int (length vs) - classWeight (histogramOf vs) [0..<Suc i] = 0" "i \<le> u"
  shows "computedVariance rnd vs u = 0"
proof -
  have "classWeight (histogramOf vs) [Suc i..<256] = 0"
    using foreground_weight [OF assms(1), of vs] assms(2) by simp
  with foreground_antimono [OF assms(3), of "histogramOf vs"]
    classWeight_nonneg [of "histogramOf vs" "[Suc u..<256]"]
  have "classWeight (histogramOf vs) [Suc u..<256] = 0" by simp
  then show ?thesis by (simp add: computedVariance_def Let_def)
qed

lemma otsuLoop_invariant:
  assumes rnd: "keepsSign rnd"
  shows "k = 256 - i \<Longrightarrow> i \<le> 256 \<Longrightarrow>
    wB = classWeight (histogramOf vs) [0..<i] \<Longrightarrow>
    sumB = classSum (histogramOf vs) [0..<i] \<Longrightarrow>
    \<forall>u<i. computedVariance rnd vs u \<le> M \<Longrightarrow> th \<le> 255 \<Longrightarrow>
    (M = 0 \<and> th = 0)
      \<or> (computedVariance rnd vs th = M \<and> (\<forall>u<th. computedVariance rnd vs u < M)) \<Longrightarrow>
    lowestMaximizer (computedVariance rnd vs)
      (otsuLoop rnd (histogramOf vs) (int (length vs)) (classSum (histogramOf vs) [0..<256])
         [i..<256] wB sumB M th)"
proof (induction k arbitrary: i wB sumB M th)
  case 0
  let ?B = "computedVariance rnd vs"
  from 0 have i: "i = 256" by simp
  with 0 have "\<forall>u\<le>255. ?B u \<le> M" by simp
  from lowestMaximizer_from_invariant [of ?B, OF computedVariance_nonneg [OF rnd] this "0.prems"(6,7)]
  show ?case using i by simp
next
  case (Suc k)
  let ?h = "histogramOf vs" and ?B = "computedVariance rnd vs"
  let ?n = "int (length vs)" and ?s = "classSum (histogramOf vs) [0..<256]"
  from Suc.prems(1) have i: "i < 256" and k: "k = 256 - Suc i" by simp_all
  from i have i': "Suc i \<le> 256" by simp
  have nonneg: "\<And>u. 0 \<le> ?B u" by (rule computedVariance_nonneg [OF rnd])
  have M: "0 \<le> M" using Suc.prems(7) nonneg [of th] by auto
  have wB': "wB + int (?h ! i) = classWeight ?h [0..<Suc i]"
    using Suc.prems(3) by (simp only: bins_Suc)
  have sumB': "sumB + int i * int (?h ! i) = classSum ?h [0..<Suc i]"
    using Suc.prems(4) by (simp only: bins_Suc)
  note step = otsuLoop_step [OF i, of rnd ?h ?n ?s wB sumB M th]
  note at = computedVariance_at [OF i, of rnd vs]
  show ?case
  proof (cases "wB + int (?h ! i) = 0")
    case True
    with Suc.prems(3) classWeight_nonneg [of ?h "[0..<i]"] have hz: "?h ! i = 0" by simp
    have s: "sumB = classSum ?h [0..<Suc i]"
      unfolding bins_Suc(2) hz using Suc.prems(4) by simp
    from True wB' at have "?B i = 0" by simp
    with M Suc.prems(5) have b: "\<forall>u<Suc i. ?B u \<le> M" by (auto simp: less_Suc_eq)
    from Suc.IH [OF k i' wB' s b Suc.prems(6,7)] True step show ?thesis by simp
  next
    case False
    note wne = False
    show ?thesis
    proof (cases "?n - (wB + int (?h ! i)) = 0")
      case True
      have "\<forall>u\<le>255. ?B u \<le> M"
      proof (intro allI impI)
        fix u :: nat assume "u \<le> 255"
        show "?B u \<le> M"
        proof (cases "u < i")
          case True
          with Suc.prems(5) show ?thesis by simp
        next
          case False
          then have "i \<le> u" by simp
          from computedVariance_empty_foreground [OF i _ this, of vs rnd] True wB' M
          show ?thesis by simp
        qed
      qed
      from lowestMaximizer_from_invariant [of ?B, OF nonneg this Suc.prems(6,7)]
        wne True step show ?thesis by simp
    next
      case False
      let ?b = "betweenOf rnd (wB + int (?h ! i)) (?n - (wB + int (?h ! i)))
                 (sumB + int i * int (?h ! i)) (?s - (sumB + int i * int (?h ! i)))"
      from wne False wB' sumB' at have Bi: "?B i = ?b" by simp
      show ?thesis
      proof (cases "?b > M")
        case True
        from Suc.prems(5) True Bi have b: "\<forall>u<Suc i. ?B u \<le> ?b"
          by (auto simp: less_Suc_eq)
        from i have th': "i \<le> 255" by simp
        from Suc.prems(5) True have lt: "\<forall>u<i. ?B u < ?b" by fastforce
        with Bi have best: "(?b = 0 \<and> i = 0) \<or> (?B i = ?b \<and> (\<forall>u<i. ?B u < ?b))" by simp
        from Suc.IH [OF k i' wB' sumB' b th' best] wne False True step show ?thesis by simp
      next
        case nb: False
        from Suc.prems(5) nb Bi have b: "\<forall>u<Suc i. ?B u \<le> M"
          by (auto simp: less_Suc_eq)
        from Suc.IH [OF k i' wB' sumB' b Suc.prems(6,7)] wne False nb step show ?thesis by simp
      qed
    qed
  qed
qed

lemma otsuThresholdWith_lowest_maximizer:
  assumes "keepsSign rnd"
  shows "lowestMaximizer (computedVariance rnd vs) (otsuThresholdWith rnd vs)"
proof -
  have s: "fold (\<lambda>i acc. acc + int i * int (histogramOf vs ! i)) [0..<256] 0
            = classSum (histogramOf vs) [0..<256]"
    by (simp add: fold_classSum)
  have "lowestMaximizer (computedVariance rnd vs)
      (otsuLoop rnd (histogramOf vs) (int (length vs)) (classSum (histogramOf vs) [0..<256])
         [0..<256] 0 0 0 0)"
    by (rule otsuLoop_invariant [OF assms, of 256 0]) (simp_all add: classWeight_def classSum_def)
  then show ?thesis
    unfolding otsuThresholdWith_def Let_def by (simp only: s)
qed

subsection \<open>The rounding of doubles keeps the sign\<close>

lemma pow2_pos: "0 < pow2 e"
  by (simp add: pow2_def)

lemma roundHalfEven_nonneg: "0 \<le> q \<Longrightarrow> 0 \<le> roundHalfEven q"
  by (auto simp: roundHalfEven_def Let_def)

lemma roundDouble_magnitude:
  "0 \<le> of_int (roundHalfEven (\<bar>x\<bar> / pow2 (exponentOf \<bar>x\<bar> - 52))) * pow2 (exponentOf \<bar>x\<bar> - 52)"
proof -
  have "0 \<le> \<bar>x\<bar> / pow2 (exponentOf \<bar>x\<bar> - 52)"
    using pow2_pos [of "exponentOf \<bar>x\<bar> - 52"] by simp
  then have "0 \<le> roundHalfEven (\<bar>x\<bar> / pow2 (exponentOf \<bar>x\<bar> - 52))"
    by (rule roundHalfEven_nonneg)
  then show ?thesis
    using pow2_pos [of "exponentOf \<bar>x\<bar> - 52"] by simp
qed

lemma roundDouble_keepsSign: "keepsSign roundDouble"
  unfolding keepsSign_def
proof (intro allI conjI impI)
  fix x :: rat assume "0 \<le> x"
  then show "0 \<le> roundDouble x"
    using roundDouble_magnitude [of x]
    by (cases "x = 0") (simp_all add: roundDouble_def Let_def)
next
  fix x :: rat assume "x \<le> 0"
  then show "roundDouble x \<le> 0"
    using roundDouble_magnitude [of x]
    by (cases "x = 0") (simp_all add: roundDouble_def Let_def mult.assoc)
qed

lemma identity_keepsSign: "keepsSign (\<lambda>x. x)"
  by (simp add: keepsSign_def)

subsection \<open>In exact arithmetic the computed variance is the variance of the specification\<close>

lemma histogram_fold_nth:
  "length h = 256 \<Longrightarrow> j < 256 \<Longrightarrow>
   fold (\<lambda>v histogram. histogram[unat v := histogram ! unat v + 1]) (vs :: buffer) h ! j
     = h ! j + length (filter (\<lambda>v. unat v = j) vs)"
proof (induction vs arbitrary: h)
  case Nil
  then show ?case by simp
next
  case (Cons v vs)
  have len: "length (h[unat v := h ! unat v + 1]) = 256" using Cons.prems by simp
  have "h[unat v := h ! unat v + 1] ! j = h ! j + (if unat v = j then 1 else 0)"
    using Cons.prems byte_index [of v] by (simp add: nth_list_update)
  with Cons.IH [OF len Cons.prems(2)] show ?case by simp
qed

lemma histogramOf_nth:
  "j < 256 \<Longrightarrow> histogramOf vs ! j = length (filter (\<lambda>v. unat v = j) vs)"
  using histogram_fold_nth [of "replicate 256 0" j vs] by (simp add: histogramOf_def)

lemma length_filter_Suc:
  "length (filter (\<lambda>v. f v < Suc n) xs)
     = length (filter (\<lambda>v. f v < n) xs) + length (filter (\<lambda>v. f v = n) xs)"
  by (induction xs) auto

lemma sum_filter_Suc:
  "sum_list (map f (filter (\<lambda>v. f v < Suc n) xs))
     = sum_list (map f (filter (\<lambda>v. f v < n) xs)) + n * length (filter (\<lambda>v. f v = n) xs)"
  by (induction xs) auto

lemma classWeight_prefix:
  "n \<le> 256 \<Longrightarrow>
   classWeight (histogramOf vs) [0..<n] = int (length (filter (\<lambda>v. unat v < n) vs))"
proof (induction n)
  case 0
  then show ?case by (simp add: classWeight_def)
next
  case (Suc n)
  then have "histogramOf vs ! n = length (filter (\<lambda>v. unat v = n) vs)"
    by (simp add: histogramOf_nth)
  with Suc show ?case
    by (simp only: bins_Suc length_filter_Suc)
qed

lemma classSum_prefix:
  "n \<le> 256 \<Longrightarrow>
   classSum (histogramOf vs) [0..<n] = int (sum_list (map unat (filter (\<lambda>v. unat v < n) vs)))"
proof (induction n)
  case 0
  then show ?case by (simp add: classSum_def)
next
  case (Suc n)
  then have "histogramOf vs ! n = length (filter (\<lambda>v. unat v = n) vs)"
    by (simp add: histogramOf_nth)
  with Suc show ?case
    by (simp only: bins_Suc sum_filter_Suc) simp
qed

lemma sum_filter_compl:
  "sum_list (map f (filter P xs)) + sum_list (map f (filter (\<lambda>v. \<not> P v) xs))
     = (sum_list (map f xs) :: nat)"
  by (induction xs) auto

lemma background_weight:
  assumes "t \<le> 255"
  shows "classWeight (histogramOf vs) [0..<Suc t] = int (length (filter (\<lambda>v. unat v \<le> t) vs))"
  using assms classWeight_prefix [of "Suc t" vs] by (simp add: less_Suc_eq_le)

lemma background_sum:
  assumes "t \<le> 255"
  shows "classSum (histogramOf vs) [0..<Suc t]
     = int (sum_list (map unat (filter (\<lambda>v. unat v \<le> t) vs)))"
  using assms classSum_prefix [of "Suc t" vs] by (simp add: less_Suc_eq_le)

lemma foreground_weight_samples:
  assumes "t \<le> 255"
  shows "classWeight (histogramOf vs) [Suc t..<256] = int (length (filter (\<lambda>v. t < unat v) vs))"
proof -
  have "length (filter (\<lambda>v. unat v \<le> t) vs) + length (filter (\<lambda>v. \<not> unat v \<le> t) vs) = length vs"
    by (rule sum_length_filter_compl)
  moreover have "filter (\<lambda>v. \<not> unat v \<le> t) vs = filter (\<lambda>v. t < unat v) vs"
    by (simp add: not_le)
  ultimately show ?thesis
    using assms foreground_weight [of t vs] background_weight [OF assms, of vs] by simp
qed

lemma foreground_sum_samples:
  assumes "t \<le> 255"
  shows "classSum (histogramOf vs) [Suc t..<256]
     = int (sum_list (map unat (filter (\<lambda>v. t < unat v) vs)))"
proof -
  have all: "filter (\<lambda>v. unat v < 256) vs = vs"
    by (simp add: byte_index)
  have "classSum (histogramOf vs) [0..<256] = int (sum_list (map unat vs))"
    using classSum_prefix [of 256 vs] by (simp only: all)
  moreover have "sum_list (map unat (filter (\<lambda>v. unat v \<le> t) vs))
      + sum_list (map unat (filter (\<lambda>v. \<not> unat v \<le> t) vs)) = sum_list (map unat vs)"
    by (rule sum_filter_compl)
  moreover have "filter (\<lambda>v. \<not> unat v \<le> t) vs = filter (\<lambda>v. t < unat v) vs"
    by (simp add: not_le)
  ultimately show ?thesis
    using assms foreground_sum [of t "histogramOf vs"] background_sum [OF assms, of vs] by simp
qed

lemma computedVariance_exact:
  assumes "t \<le> 255"
  shows "computedVariance (\<lambda>x. x) vs t = exactVariance vs t"
  unfolding computedVariance_def exactVariance_def Let_def
    background_weight [OF assms] background_sum [OF assms]
    foreground_weight_samples [OF assms] foreground_sum_samples [OF assms] betweenOf_def
  by (simp add: power2_eq_square)

lemma lowestMaximizer_cong:
  "(\<And>t. t \<le> 255 \<Longrightarrow> B t = B' t) \<Longrightarrow> lowestMaximizer B r \<Longrightarrow> lowestMaximizer B' r"
  by (auto simp: lowestMaximizer_def)

lemma otsuThreshold_exact_arithmetic:
  "lowestMaximizer (exactVariance vs) (otsuThresholdWith (\<lambda>x. x) vs)"
  by (rule lowestMaximizer_cong [OF computedVariance_exact])
     (simp_all add: otsuThresholdWith_lowest_maximizer [OF identity_keepsSign])

subsection \<open>The rounding error of the computed variance\<close>

lemma pow2_powr: "pow2 e = 2 powi e"
  by (simp add: pow2_def power_int_def field_simps)

lemma pow2_add: "pow2 (a + b) = pow2 a * pow2 b"
  by (simp add: pow2_powr power_int_add)

lemma pow2_mono: "a \<le> b \<Longrightarrow> pow2 a \<le> pow2 b"
  by (simp add: pow2_powr power_int_increasing)

lemma roundHalfEven_error: "\<bar>of_int (roundHalfEven q) - q\<bar> \<le> 1 / 2"
proof -
  define r where "r = q - of_int \<lfloor>q\<rfloor>"
  have r: "0 \<le> r" "r < 1" unfolding r_def by linarith+
  have q: "q = of_int \<lfloor>q\<rfloor> + r" by (simp add: r_def)
  have "roundHalfEven q = \<lfloor>q\<rfloor> \<and> r \<le> 1 / 2 \<or> roundHalfEven q = \<lfloor>q\<rfloor> + 1 \<and> 1 / 2 \<le> r"
    unfolding roundHalfEven_def Let_def r_def [symmetric] by auto
  then show ?thesis
  proof
    assume "roundHalfEven q = \<lfloor>q\<rfloor> \<and> r \<le> 1 / 2"
    then have "of_int (roundHalfEven q) - q = - r" "r \<le> 1 / 2" by (simp_all add: r_def)
    with r show ?thesis by simp
  next
    assume "roundHalfEven q = \<lfloor>q\<rfloor> + 1 \<and> 1 / 2 \<le> r"
    then have "of_int (roundHalfEven q) - q = 1 - r" "1 / 2 \<le> r" by (simp_all add: r_def)
    with r show ?thesis by simp
  qed
qed

lemma bitlen_pos:
  assumes "0 < (p::int)"
  shows "1 \<le> bitlen p"
proof (rule ccontr)
  assume "\<not> 1 \<le> bitlen p"
  then have "nat (bitlen p) = 0" by simp
  with bitlen_bounds [OF assms] have "p < 1" by simp
  with assms show False by simp
qed

lemma exponentOf_lower:
  assumes "0 < a"
  shows "pow2 (exponentOf a) \<le> a"
proof -
  obtain p q where pq: "quotient_of a = (p, q)" by (cases "quotient_of a")
  then have q: "0 < q" and a: "a = of_int p / of_int q"
    using quotient_of_denom_pos quotient_of_div by blast+
  with assms have p: "0 < p" by (simp add: zero_less_divide_iff)
  let ?e = "bitlen p - bitlen q"
  have "pow2 (?e - 1) \<le> a"
  proof -
    from bitlen_bounds [OF p] have lp: "(2::int) ^ nat (bitlen p - 1) \<le> p" by simp
    from bitlen_bounds [OF q] have uq: "q < 2 ^ nat (bitlen q)" by simp
    have bp: "1 \<le> bitlen p" using p by (rule bitlen_pos)
    have bq: "1 \<le> bitlen q" using q by (rule bitlen_pos)
    have "pow2 (?e - 1) * of_int q \<le> pow2 (?e - 1) * 2 ^ nat (bitlen q)"
      using uq pow2_pos [of "?e - 1"]
      by (metis less_le mult_left_mono of_int_less_iff of_int_numeral of_int_power)
    also have "\<dots> = pow2 (?e - 1) * pow2 (bitlen q)"
      using bq by (simp add: pow2_def)
    also have "\<dots> = pow2 (bitlen p - 1)"
      by (simp add: pow2_add [symmetric])
    also have "\<dots> = of_int (2 ^ nat (bitlen p - 1))"
      using bp by (simp add: pow2_def)
    also have "\<dots> \<le> of_int p"
      using lp by (simp only: of_int_le_iff)
    finally show ?thesis
      using q by (simp add: a pos_le_divide_eq)
  qed
  then show ?thesis
    unfolding exponentOf_def pq by (simp add: Let_def)
qed

lemma roundDouble_error: "\<bar>roundDouble x - x\<bar> \<le> unitRoundoff * \<bar>x\<bar>"
proof (cases "x = 0")
  case True
  then show ?thesis by (simp add: roundDouble_def)
next
  case False
  let ?a = "\<bar>x\<bar>"
  let ?e = "exponentOf ?a"
  let ?ulp = "pow2 (?e - 52)"
  let ?n = "of_int (roundHalfEven (?a / ?ulp)) :: rat"
  from False have a: "0 < ?a" by simp
  have ulp: "0 < ?ulp" by (rule pow2_pos)
  have r: "roundDouble x = sgn x * ?n * ?ulp"
    using False by (simp add: roundDouble_def Let_def)
  have x: "x = sgn x * ?a" by (simp add: abs_sgn mult.commute sgn_mult_abs [symmetric])
  have "roundDouble x - x = sgn x * (?n * ?ulp - ?a)"
    by (subst (2) x) (simp add: r algebra_simps)
  then have "\<bar>roundDouble x - x\<bar> = \<bar>?n * ?ulp - ?a\<bar>"
    using False by (simp add: abs_mult abs_sgn_eq)
  also have "\<dots> = \<bar>?n - ?a / ?ulp\<bar> * ?ulp"
  proof -
    have "?n * ?ulp - ?a = (?n - ?a / ?ulp) * ?ulp"
      using ulp by (simp add: algebra_simps)
    then show ?thesis using ulp by (simp add: abs_mult)
  qed
  also have "\<dots> \<le> 1 / 2 * ?ulp"
    using roundHalfEven_error [of "?a / ?ulp"] ulp by (intro mult_right_mono) simp_all
  also have "\<dots> = pow2 ?e / 2 ^ 53"
  proof -
    have "pow2 ?e = pow2 (?e - 52) * pow2 52" by (simp add: pow2_add [symmetric])
    then show ?thesis by (simp add: pow2_def)
  qed
  also have "\<dots> \<le> ?a / 2 ^ 53"
    using exponentOf_lower [OF a] by (simp add: divide_right_mono)
  finally show ?thesis by (simp add: unitRoundoff_def)
qed

lemma unitRoundoff_nonneg: "0 \<le> unitRoundoff"
  by (simp add: unitRoundoff_def)

lemma rel_mult:
  fixes x y :: rat
  assumes "\<bar>x' - x\<bar> \<le> a * \<bar>x\<bar>" "\<bar>y' - y\<bar> \<le> b * \<bar>y\<bar>" "0 \<le> a" "0 \<le> b"
  shows "\<bar>x' * y' - x * y\<bar> \<le> (a + b + a * b) * \<bar>x * y\<bar>"
proof -
  have "x' * y' - x * y = (x' - x) * y + x * (y' - y) + (x' - x) * (y' - y)"
    by (simp add: algebra_simps)
  also have "\<bar>\<dots>\<bar> \<le> \<bar>(x' - x) * y\<bar> + \<bar>x * (y' - y)\<bar> + \<bar>(x' - x) * (y' - y)\<bar>"
    by linarith
  also have "\<dots> = \<bar>x' - x\<bar> * \<bar>y\<bar> + \<bar>x\<bar> * \<bar>y' - y\<bar> + \<bar>x' - x\<bar> * \<bar>y' - y\<bar>"
    by (simp only: abs_mult)
  also have "\<dots> \<le> a * \<bar>x\<bar> * \<bar>y\<bar> + \<bar>x\<bar> * (b * \<bar>y\<bar>) + a * \<bar>x\<bar> * (b * \<bar>y\<bar>)"
    using assms by (intro add_mono mult_mono) simp_all
  also have "\<dots> = (a + b + a * b) * \<bar>x * y\<bar>"
    by (simp add: abs_mult algebra_simps)
  finally show ?thesis .
qed

lemma rel_rnd:
  assumes "\<bar>x' - x\<bar> \<le> a * \<bar>x\<bar>" "0 \<le> a"
  shows "\<bar>roundDouble x' - x\<bar> \<le> (a + unitRoundoff + a * unitRoundoff) * \<bar>x\<bar>"
proof -
  have "\<bar>x'\<bar> \<le> \<bar>x\<bar> + \<bar>x' - x\<bar>" by simp
  with assms have x': "\<bar>x'\<bar> \<le> (1 + a) * \<bar>x\<bar>" by (simp add: algebra_simps)
  have "\<bar>roundDouble x' - x\<bar> \<le> \<bar>roundDouble x' - x'\<bar> + \<bar>x' - x\<bar>" by simp
  also have "\<dots> \<le> unitRoundoff * \<bar>x'\<bar> + a * \<bar>x\<bar>"
    using roundDouble_error [of x'] assms(1) by simp
  also have "\<dots> \<le> unitRoundoff * ((1 + a) * \<bar>x\<bar>) + a * \<bar>x\<bar>"
    using x' unitRoundoff_nonneg by (simp add: mult_left_mono)
  also have "\<dots> = (a + unitRoundoff + a * unitRoundoff) * \<bar>x\<bar>"
    by (simp add: algebra_simps)
  finally show ?thesis .
qed

lemma betweenOf_exact:
  "betweenOf (\<lambda>x. x) wB wF sumB sumF
     = of_int wB * of_int wF * (of_int sumB / of_int wB - of_int sumF / of_int wF)
         * (of_int sumB / of_int wB - of_int sumF / of_int wF)"
  by (simp add: betweenOf_def Let_def)

lemma roundoff_budget:
  assumes "u = unitRoundoff"
    and "ad = 510 * u + u + 510 * u * u"
    and "a1 = u + ad + u * ad"
    and "a2 = a1 + u + a1 * u"
    and "a3 = a2 + ad + a2 * ad"
    and "a4 = a3 + u + a3 * u"
  shows "a4 \<le> 1 / 2 ^ 42"
  unfolding assms unitRoundoff_def by simp

lemma betweenOf_error:
  assumes w: "0 < wB" "0 < wF"
    and b: "0 \<le> sumB" "sumB \<le> t * wB"
    and f: "(t + 1) * wF \<le> sumF" "sumF \<le> 255 * wF"
  shows "\<bar>betweenOf roundDouble wB wF sumB sumF - betweenOf (\<lambda>x. x) wB wF sumB sumF\<bar>
           \<le> betweenOf (\<lambda>x. x) wB wF sumB sumF / 2 ^ 42"
proof -
  define B :: rat where "B = of_int sumB / of_int wB"
  define F :: rat where "F = of_int sumF / of_int wF"
  define W :: rat where "W = of_int wB * of_int wF"
  define D where "D = B - F"
  define mB where "mB = roundDouble B"
  define mF where "mF = roundDouble F"
  define d where "d = roundDouble (mB - mF)"
  define u where "u = unitRoundoff"
  define ad where "ad = 510 * u + u + 510 * u * u"
  define a1 where "a1 = u + ad + u * ad"
  define a2 where "a2 = a1 + u + a1 * u"
  define a3 where "a3 = a2 + ad + a2 * ad"
  define a4 where "a4 = a3 + u + a3 * u"
  have u0: "0 \<le> u" by (simp add: u_def unitRoundoff_nonneg)
  have ad0: "0 \<le> ad" using u0 by (simp add: ad_def)
  have a10: "0 \<le> a1" using u0 ad0 by (simp add: a1_def)
  have a20: "0 \<le> a2" using u0 a10 by (simp add: a2_def)
  have a30: "0 \<le> a3" using ad0 a20 by (simp add: a3_def)
  have B0: "0 \<le> B" using w b by (simp add: B_def)
  have Bt: "B \<le> of_int t"
  proof -
    have "(of_int sumB :: rat) \<le> of_int (t * wB)" using b(2) by (simp only: of_int_le_iff)
    then show ?thesis using w by (simp add: B_def pos_divide_le_eq)
  qed
  have Ft: "of_int t + 1 \<le> F"
  proof -
    have "(of_int ((t + 1) * wF) :: rat) \<le> of_int sumF" using f(1) by (simp only: of_int_le_iff)
    then show ?thesis using w by (simp add: F_def pos_le_divide_eq)
  qed
  have F255: "F \<le> 255"
  proof -
    have "(of_int sumF :: rat) \<le> of_int (255 * wF)" using f(2) by (simp only: of_int_le_iff)
    then show ?thesis using w by (simp add: F_def pos_divide_le_eq)
  qed
  have D1: "1 \<le> \<bar>D\<bar>" using Bt Ft by (simp add: D_def)
  have BF: "B + F \<le> 510" using Bt Ft F255 by simp
  have F0: "0 \<le> F" using B0 Bt Ft by simp
  have eB: "\<bar>mB - B\<bar> \<le> u * B"
    using roundDouble_error [of B] B0 by (simp add: mB_def u_def)
  have eF: "\<bar>mF - F\<bar> \<le> u * F"
    using roundDouble_error [of F] F0 by (simp add: mF_def u_def)
  have "\<bar>(mB - mF) - D\<bar> \<le> \<bar>mB - B\<bar> + \<bar>mF - F\<bar>"
    unfolding D_def by linarith
  also have "\<dots> \<le> u * (B + F)" using eB eF by (simp add: algebra_simps)
  also have "\<dots> \<le> u * 510" using BF u0 by (rule mult_left_mono)
  also have "\<dots> \<le> 510 * u * \<bar>D\<bar>" using mult_left_mono [OF D1, of "510 * u"] u0 by simp
  finally have "\<bar>(mB - mF) - D\<bar> \<le> 510 * u * \<bar>D\<bar>" .
  from rel_rnd [OF this] u0 have ed: "\<bar>d - D\<bar> \<le> ad * \<bar>D\<bar>"
    by (simp add: d_def ad_def u_def)
  have "\<bar>W - W\<bar> \<le> 0 * \<bar>W\<bar>" by simp
  from rel_rnd [OF this] have eW: "\<bar>roundDouble W - W\<bar> \<le> u * \<bar>W\<bar>"
    by (simp add: u_def)
  from rel_mult [OF eW ed u0 ad0] have "\<bar>roundDouble W * d - W * D\<bar> \<le> a1 * \<bar>W * D\<bar>"
    by (simp only: a1_def)
  from rel_rnd [OF this a10] have e2: "\<bar>roundDouble (roundDouble W * d) - W * D\<bar> \<le> a2 * \<bar>W * D\<bar>"
    by (simp only: a2_def u_def)
  from rel_mult [OF e2 ed a20 ad0]
  have "\<bar>roundDouble (roundDouble W * d) * d - W * D * D\<bar> \<le> a3 * \<bar>W * D * D\<bar>"
    by (simp only: a3_def)
  from rel_rnd [OF this a30]
  have "\<bar>roundDouble (roundDouble (roundDouble W * d) * d) - W * D * D\<bar> \<le> a4 * \<bar>W * D * D\<bar>"
    by (simp only: a4_def u_def)
  moreover have "a4 * \<bar>W * D * D\<bar> \<le> 1 / 2 ^ 42 * \<bar>W * D * D\<bar>"
    using roundoff_budget [OF u_def ad_def a1_def a2_def a3_def a4_def]
    by (rule mult_right_mono) simp
  moreover have "0 \<le> W * D * D" using w by (simp add: W_def mult.assoc)
  moreover have "betweenOf roundDouble wB wF sumB sumF
      = roundDouble (roundDouble (roundDouble W * d) * d)"
    by (simp add: betweenOf_def Let_def W_def d_def mB_def mF_def B_def F_def)
  moreover have "betweenOf (\<lambda>x. x) wB wF sumB sumF = W * D * D"
    by (simp add: betweenOf_exact W_def D_def B_def F_def)
  ultimately show ?thesis by simp
qed

lemma classSum_nonneg: "0 \<le> classSum h bins"
  by (induction bins) (simp_all add: classSum_def)

lemma classSum_upper:
  "\<forall>j\<in>set bins. j \<le> t \<Longrightarrow> classSum h bins \<le> int t * classWeight h bins"
proof (induction bins)
  case Nil
  then show ?case by (simp add: classSum_def classWeight_def)
next
  case (Cons j bins)
  then have "int j * int (h ! j) \<le> int t * int (h ! j)"
    by (simp add: mult_right_mono)
  with Cons show ?case
    by (simp add: classSum_def classWeight_def algebra_simps)
qed

lemma classSum_lower:
  "\<forall>j\<in>set bins. t \<le> j \<Longrightarrow> int t * classWeight h bins \<le> classSum h bins"
proof (induction bins)
  case Nil
  then show ?case by (simp add: classSum_def classWeight_def)
next
  case (Cons j bins)
  then have "int t * int (h ! j) \<le> int j * int (h ! j)"
    by (simp add: mult_right_mono)
  with Cons show ?case
    by (simp add: classSum_def classWeight_def algebra_simps)
qed

lemma exactVariance_nonneg: "0 \<le> exactVariance vs t"
  by (simp add: exactVariance_def Let_def)

lemma computedVariance_error:
  assumes "t \<le> 255"
  shows "\<bar>computedVariance roundDouble vs t - exactVariance vs t\<bar> \<le> exactVariance vs t / 2 ^ 42"
proof -
  define h where "h = histogramOf vs"
  define wB where "wB = classWeight h [0..<Suc t]"
  define wF where "wF = classWeight h [Suc t..<256]"
  define sumB where "sumB = classSum h [0..<Suc t]"
  define sumF where "sumF = classSum h [Suc t..<256]"
  have c: "computedVariance rnd vs t = (if wB = 0 \<or> wF = 0 then 0 else betweenOf rnd wB wF sumB sumF)"
    for rnd
    by (simp add: computedVariance_def Let_def h_def wB_def wF_def sumB_def sumF_def)
  have e: "exactVariance vs t = computedVariance (\<lambda>x. x) vs t"
    using computedVariance_exact [OF assms] by simp
  show ?thesis
  proof (cases "wB = 0 \<or> wF = 0")
    case True
    then show ?thesis by (simp add: e c)
  next
    case False
    with classWeight_nonneg [of h "[0..<Suc t]"] classWeight_nonneg [of h "[Suc t..<256]"]
    have w: "0 < wB" "0 < wF" by (simp_all add: wB_def wF_def)
    have b0: "0 \<le> sumB" unfolding sumB_def by (rule classSum_nonneg)
    have b1: "sumB \<le> int t * wB"
      unfolding sumB_def wB_def by (rule classSum_upper) simp
    have "int (Suc t) * wF \<le> sumF"
      unfolding sumF_def wF_def by (rule classSum_lower) simp
    then have f0: "(int t + 1) * wF \<le> sumF" by (simp add: algebra_simps)
    have "sumF \<le> int 255 * wF"
      unfolding sumF_def wF_def by (rule classSum_upper) simp
    then have f1: "sumF \<le> 255 * wF" by simp
    from betweenOf_error [OF w b0 b1 f0 f1] False show ?thesis
      by (simp add: e c)
  qed
qed

lemma otsuThreshold_near_maximal:
  assumes "u \<le> 255"
  shows "(1 - 1 / 2 ^ 40) * exactVariance vs u \<le> exactVariance vs (otsuThreshold vs)"
proof -
  define r where "r = otsuThreshold vs"
  define g :: rat where "g = 1 / 2 ^ 42"
  have m: "lowestMaximizer (computedVariance roundDouble vs) r"
    unfolding r_def otsuThreshold_def
    by (rule otsuThresholdWith_lowest_maximizer [OF roundDouble_keepsSign])
  then have r: "r \<le> 255" and le: "computedVariance roundDouble vs u \<le> computedVariance roundDouble vs r"
    using assms by (simp_all add: lowestMaximizer_def)
  have "\<bar>computedVariance roundDouble vs u - exactVariance vs u\<bar> \<le> g * exactVariance vs u"
    using computedVariance_error [OF assms, of vs] by (simp only: g_def times_divide_eq_left mult_1)
  moreover
  have "\<bar>computedVariance roundDouble vs r - exactVariance vs r\<bar> \<le> g * exactVariance vs r"
    using computedVariance_error [OF r, of vs] by (simp only: g_def times_divide_eq_left mult_1)
  ultimately
  have "exactVariance vs u - g * exactVariance vs u \<le> exactVariance vs r + g * exactVariance vs r"
    using le by linarith
  then have k: "(1 - g) * exactVariance vs u \<le> (1 + g) * exactVariance vs r"
    by (simp only: algebra_simps mult_1)
  define c :: rat where "c = 1 - 1 / 2 ^ 40"
  have "c * (1 + g) \<le> 1 - g" by (simp add: c_def g_def)
  then have "c * (1 + g) * exactVariance vs u \<le> (1 - g) * exactVariance vs u"
    using exactVariance_nonneg by (rule mult_right_mono)
  from this k have "c * (1 + g) * exactVariance vs u \<le> (1 + g) * exactVariance vs r"
    by (rule order_trans)
  moreover have "c * (1 + g) * exactVariance vs u = (1 + g) * (c * exactVariance vs u)"
    by (simp only: mult_ac)
  moreover have "0 < 1 + g" by (simp add: g_def)
  ultimately have "c * exactVariance vs u \<le> exactVariance vs r"
    by (simp only: mult_le_cancel_left_pos)
  then show ?thesis
    unfolding r_def c_def .
qed

subsection \<open>The samples 6, 10, 8, 8\<close>

text \<open>
  The thresholds 6, 7, 8 and 9 all reach the exact variance \<open>64 / 3\<close>, the maximum. In
  doubles the thresholds 6 and 7 are scored \<open>0x1.5555555555553p+4\<close> and the thresholds 8
  and 9 \<open>0x1.5555555555556p+4\<close>, three units in the last place more: the background mean
  \<open>22 / 3\<close> and the difference \<open>22 / 3 - 10\<close> round otherwise than \<open>26 / 3\<close> and
  \<open>6 - 26 / 3\<close>. The loop therefore moves on from 6 to 8.
\<close>

lemma doubles_example: "otsuThreshold [6, 10, 8, 8] = 8"
  by code_simp

lemma exact_example: "otsuThresholdWith (\<lambda>x. x) [6, 10, 8, 8] = 6"
  by code_simp

lemma exact_tie:
  "exactVariance [6, 10, 8, 8] 6 = 64 / 3 \<and> exactVariance [6, 10, 8, 8] 8 = 64 / 3"
  by code_simp

lemma doubles_scores:
  "computedVariance roundDouble [6, 10, 8, 8] 6 = 6004799503160659 / 281474976710656
   \<and> computedVariance roundDouble [6, 10, 8, 8] 8 = 3002399751580331 / 140737488355328"
  by code_simp

text \<open>
  Claim C6, as amended. For every array of intensities, empty or not, otsuThreshold
  returns a threshold in 0..255 at which the between-class variance as the program
  computes it from the 256-bin histogram, in doubles, is maximal among the thresholds
  0..255, and every lower threshold is scored strictly less: it is the lowest maximizer
  of the computed variance. The computed variance of a threshold differs from
  \<open>wB \<cdot> wF \<cdot> (mB - mF)\<^sup>2\<close>, taken from the samples in exact arithmetic, by at most the
  fraction \<open>2^-42\<close> of it, so the exact variance of the result is at least
  \<open>1 - 2^-40\<close> times that of every threshold. Run in exact arithmetic, the same loop
  returns the lowest maximizer of the exact variance. The claim as stated, that the
  program returns the lowest maximizer of \<open>wB \<cdot> wF \<cdot> (mB - mF)\<^sup>2\<close>, fails: thresholds
  that tie exactly are scored differently in doubles.
\<close>

theorem otsuThreshold_lowest_computed_maximizer:
  "otsuThreshold vs \<le> 255
   \<and> (\<forall>u\<le>255. computedVariance roundDouble vs u
                  \<le> computedVariance roundDouble vs (otsuThreshold vs))
   \<and> (\<forall>u<otsuThreshold vs. computedVariance roundDouble vs u
                  < computedVariance roundDouble vs (otsuThreshold vs))
   \<and> (\<forall>u\<le>255. \<bar>computedVariance roundDouble vs u - exactVariance vs u\<bar>
                  \<le> exactVariance vs u / 2 ^ 42)
   \<and> (\<forall>u\<le>255. (1 - 1 / 2 ^ 40) * exactVariance vs u \<le> exactVariance vs (otsuThreshold vs))
   \<and> otsuThresholdWith (\<lambda>x. x) vs \<le> 255
   \<and> (\<forall>u\<le>255. exactVariance vs u \<le> exactVariance vs (otsuThresholdWith (\<lambda>x. x) vs))
   \<and> (\<forall>u<otsuThresholdWith (\<lambda>x. x) vs.
          exactVariance vs u < exactVariance vs (otsuThresholdWith (\<lambda>x. x) vs))"
proof -
  have "lowestMaximizer (computedVariance roundDouble vs) (otsuThreshold vs)"
    unfolding otsuThreshold_def
    by (rule otsuThresholdWith_lowest_maximizer [OF roundDouble_keepsSign])
  moreover note otsuThreshold_exact_arithmetic [of vs]
  ultimately show ?thesis
    unfolding lowestMaximizer_def
    using computedVariance_error [of _ vs] otsuThreshold_near_maximal [of _ vs] by blast
qed

theorem otsuThreshold_lowest_computed_maximizer_witness:
  "otsuThreshold [6, 10, 8, 8] = 8
   \<and> computedVariance roundDouble [6, 10, 8, 8] 6 < computedVariance roundDouble [6, 10, 8, 8] 8
   \<and> computedVariance roundDouble [6, 10, 8, 8] 200
       \<le> computedVariance roundDouble [6, 10, 8, 8] 8
   \<and> \<bar>computedVariance roundDouble [6, 10, 8, 8] 6 - exactVariance [6, 10, 8, 8] 6\<bar>
       \<le> exactVariance [6, 10, 8, 8] 6 / 2 ^ 42
   \<and> (1 - 1 / 2 ^ 40) * exactVariance [6, 10, 8, 8] 6 \<le> exactVariance [6, 10, 8, 8] 8
   \<and> otsuThresholdWith (\<lambda>x. x) [6, 10, 8, 8] = 6
   \<and> exactVariance [6, 10, 8, 8] 5 < exactVariance [6, 10, 8, 8] 6
   \<and> exactVariance [6, 10, 8, 8] 8 \<le> exactVariance [6, 10, 8, 8] 6"
proof -
  note t = otsuThreshold_lowest_computed_maximizer [of "[6, 10, 8, 8]"]
  have r: "otsuThreshold [6, 10, 8, 8] = 8" by (rule doubles_example)
  have e: "otsuThresholdWith (\<lambda>x. x) [6, 10, 8, 8] = 6" by (rule exact_example)
  from t have "\<forall>u<8. computedVariance roundDouble [6, 10, 8, 8] u
      < computedVariance roundDouble [6, 10, 8, 8] 8"
    unfolding r by blast
  then have 1: "computedVariance roundDouble [6, 10, 8, 8] 6
      < computedVariance roundDouble [6, 10, 8, 8] 8" by simp
  from t have "\<forall>u\<le>255. computedVariance roundDouble [6, 10, 8, 8] u
      \<le> computedVariance roundDouble [6, 10, 8, 8] 8"
    unfolding r by blast
  then have 2: "computedVariance roundDouble [6, 10, 8, 8] 200
      \<le> computedVariance roundDouble [6, 10, 8, 8] 8" by simp
  from t have "\<forall>u\<le>255. \<bar>computedVariance roundDouble [6, 10, 8, 8] u
      - exactVariance [6, 10, 8, 8] u\<bar> \<le> exactVariance [6, 10, 8, 8] u / 2 ^ 42"
    by blast
  then have 3: "\<bar>computedVariance roundDouble [6, 10, 8, 8] 6 - exactVariance [6, 10, 8, 8] 6\<bar>
      \<le> exactVariance [6, 10, 8, 8] 6 / 2 ^ 42" by simp
  from t have "\<forall>u\<le>255. (1 - 1 / 2 ^ 40) * exactVariance [6, 10, 8, 8] u
      \<le> exactVariance [6, 10, 8, 8] 8"
    unfolding r by blast
  then have 4: "(1 - 1 / 2 ^ 40) * exactVariance [6, 10, 8, 8] 6 \<le> exactVariance [6, 10, 8, 8] 8"
    by simp
  from t have "\<forall>u<6. exactVariance [6, 10, 8, 8] u < exactVariance [6, 10, 8, 8] 6"
    unfolding e by blast
  then have 5: "exactVariance [6, 10, 8, 8] 5 < exactVariance [6, 10, 8, 8] 6" by simp
  from t have "\<forall>u\<le>255. exactVariance [6, 10, 8, 8] u \<le> exactVariance [6, 10, 8, 8] 6"
    unfolding e by blast
  then have 6: "exactVariance [6, 10, 8, 8] 8 \<le> exactVariance [6, 10, 8, 8] 6" by simp
  from r 1 2 3 4 e 5 6 show ?thesis by blast
qed

text \<open>
  The counterexample to the claim as stated: on the samples 6, 10, 8, 8 the program
  returns 8, and the threshold 6 below it has the same exact variance.
\<close>

theorem otsuThreshold_counterexample:
  "otsuThreshold [6, 10, 8, 8] = 8
   \<and> exactVariance [6, 10, 8, 8] 6 = 64 / 3
   \<and> exactVariance [6, 10, 8, 8] 8 = 64 / 3
   \<and> \<not> lowestMaximizer (exactVariance [6, 10, 8, 8]) (otsuThreshold [6, 10, 8, 8])"
proof -
  have "\<not> lowestMaximizer (exactVariance [6, 10, 8, 8]) 8"
  proof
    assume "lowestMaximizer (exactVariance [6, 10, 8, 8]) 8"
    then have "\<forall>u<8. exactVariance [6, 10, 8, 8] u < exactVariance [6, 10, 8, 8] 8"
      unfolding lowestMaximizer_def by blast
    then have "exactVariance [6, 10, 8, 8] 6 < exactVariance [6, 10, 8, 8] 8"
      by simp
    with exact_tie show False by simp
  qed
  with doubles_example exact_tie show ?thesis by simp
qed

end
